theory Spec2Isabelle
  imports Complex_Main "HOL-Library.Sublist"
begin

section \<open>Python strings and lists\<close>

text \<open>
  Texts are lists of characters of the ASCII range.  The white space of \<open>str.split\<close>,
  \<open>str.strip\<close> and the pattern \<open>\s\<close> is, in that range, the code points 9 to 13, 28 to 31
  and 32.
\<close>

definition is_space :: "char \<Rightarrow> bool" where
  "is_space c = (let n = of_char c :: nat in (9 \<le> n \<and> n \<le> 13) \<or> (28 \<le> n \<and> n \<le> 32))"

text \<open>
  \<open>text.split()\<close>: the maximal runs of non-space characters, in order.  The first argument
  is the word read so far.
\<close>

fun split_acc :: "string \<Rightarrow> string \<Rightarrow> string list" where
  "split_acc w [] = (if w = [] then [] else [w])"
| "split_acc w (c # cs) =
     (if is_space c then (if w = [] then split_acc [] cs else w # split_acc [] cs)
      else split_acc (w @ [c]) cs)"

definition split_ws :: "string \<Rightarrow> string list" where
  "split_ws s = split_acc [] s"

text \<open>\<open>' '.join(ws)\<close>\<close>

fun join_sp :: "string list \<Rightarrow> string" where
  "join_sp [] = []"
| "join_sp [w] = w"
| "join_sp (w # v # ws) = w @ '' '' @ join_sp (v # ws)"

text \<open>
  \<open>xs[i:j]\<close> for integers \<open>i\<close> and \<open>j\<close>: a negative bound counts from the end, and both
  bounds are clamped to the list.
\<close>

definition slice_bound :: "nat \<Rightarrow> int \<Rightarrow> nat" where
  "slice_bound n i = (if i < 0 then nat (int n + i) else min (nat i) n)"

definition py_slice :: "'a list \<Rightarrow> int \<Rightarrow> int \<Rightarrow> 'a list" where
  "py_slice xs i j =
     (let lo = slice_bound (length xs) i; hi = slice_bound (length xs) j
      in take (hi - lo) (drop lo xs))"

section \<open>The chunker\<close>

text \<open>
  \<open>EfficientRunbookIndexer.chunk_text\<close> (indexing_pipeline_efficient.py).  The \<open>while\<close> loop
  with its state \<open>start\<close>, \<open>chunks\<close>; a run that never leaves the loop is \<open>None\<close>.
\<close>

partial_function (option) chunk_loop ::
  "int \<Rightarrow> int \<Rightarrow> string list \<Rightarrow> int \<Rightarrow> string list \<Rightarrow> string list option" where
  "chunk_loop chunk_size overlap words start chunks =
     (if start < int (length words) then
        (let end = min (start + chunk_size) (int (length words));
             chunks' = chunks @ [join_sp (py_slice words start end)]
         in if end = int (length words) then Some chunks'
            else chunk_loop chunk_size overlap words (end - overlap) chunks')
      else Some chunks)"

declare chunk_loop.simps [code]

definition chunk_text :: "int \<Rightarrow> int \<Rightarrow> string \<Rightarrow> string list option" where
  "chunk_text chunk_size overlap text =
     (let words = split_ws text
      in if int (length words) \<le> chunk_size then Some [text]
         else chunk_loop chunk_size overlap words 0 [])"

text \<open>
  \<open>RunbookIndexer.chunk_text\<close> (test/indexing_pipeline.py): the same window, but the loop is
  left on \<open>start >= len(words)\<close>, tested after \<open>overlap\<close> has been subtracted.
\<close>

partial_function (option) runbook_chunk_loop ::
  "int \<Rightarrow> int \<Rightarrow> string list \<Rightarrow> int \<Rightarrow> string list \<Rightarrow> string list option" where
  "runbook_chunk_loop chunk_size overlap words start chunks =
     (if start < int (length words) then
        (let end = min (start + chunk_size) (int (length words));
             chunks' = chunks @ [join_sp (py_slice words start end)];
             start' = end - overlap
         in if start' \<ge> int (length words) then Some chunks'
            else runbook_chunk_loop chunk_size overlap words start' chunks')
      else Some chunks)"

declare runbook_chunk_loop.simps [code]

definition runbook_chunk_text :: "int \<Rightarrow> int \<Rightarrow> string \<Rightarrow> string list option" where
  "runbook_chunk_text chunk_size overlap text =
     (if text = [] then Some []
      else let words = split_ws text
           in if int (length words) \<le> chunk_size then Some [text]
              else runbook_chunk_loop chunk_size overlap words 0 [])"

text \<open>
  The windows \<open>(start, end)\<close> that the loop of \<open>chunk_text\<close> visits from \<open>start\<close> on a
  sequence of \<open>n\<close> words; used to state and prove the properties of the chunks.
\<close>

function window_bounds :: "int \<Rightarrow> int \<Rightarrow> int \<Rightarrow> int \<Rightarrow> (int \<times> int) list" where
  "window_bounds cs ov n start =
     (if start < n \<and> ov < cs then
        (if min (start + cs) n = n then [(start, n)]
         else (start, start + cs) # window_bounds cs ov n (start + cs - ov))
      else [])"
  by pat_completeness auto
termination
  by (relation "measure (\<lambda>(cs, ov, n, start). nat (n - start))") auto

declare window_bounds.simps [simp del]

text \<open>A word as \<open>str.split\<close> returns it: not empty, and free of white space.\<close>

definition word_ok :: "string \<Rightarrow> bool" where
  "word_ok w = (w \<noteq> [] \<and> (\<forall>c \<in> set w. \<not> is_space c))"

section \<open>Text normalisation\<close>

text \<open>\<open>s.strip()\<close> and \<open>s.lower()\<close>, on the ASCII range.\<close>

definition str_strip :: "string \<Rightarrow> string" where
  "str_strip s = rev (dropWhile is_space (rev (dropWhile is_space s)))"

definition lower_char :: "char \<Rightarrow> char" where
  "lower_char c =
     (let n = of_char c :: nat in if 65 \<le> n \<and> n \<le> 90 then char_of (n + 32) else c)"

definition str_lower :: "string \<Rightarrow> string" where
  "str_lower s = map lower_char s"

text \<open>
  \<open>re.sub(r'<[^>]+>', '', text)\<close>: a \<open><\<close>, at least one character other than \<open>>\<close>, and the
  next \<open>>\<close> are removed; a \<open><\<close> that no such match starts at stays.
\<close>

function strip_tags :: "string \<Rightarrow> string" where
  "strip_tags [] = []"
| "strip_tags (c # cs) =
     (if c = CHR ''<'' \<and> takeWhile (\<lambda>x. x \<noteq> CHR ''>'') cs \<noteq> []
          \<and> dropWhile (\<lambda>x. x \<noteq> CHR ''>'') cs \<noteq> []
      then strip_tags (tl (dropWhile (\<lambda>x. x \<noteq> CHR ''>'') cs))
      else c # strip_tags cs)"
  by pat_completeness auto
termination
proof (relation "measure length")
  fix c :: char and cs :: string
  have "length (tl (dropWhile (\<lambda>x. x \<noteq> CHR ''>'') cs)) \<le> length cs"
    using length_dropWhile_le[of "\<lambda>x. x \<noteq> CHR ''>''" cs] by simp
  then show "(tl (dropWhile (\<lambda>x. x \<noteq> CHR ''>'') cs), c # cs) \<in> measure length" by simp
qed simp_all

text \<open>\<open>re.sub(r'\s+', ' ', text)\<close>: every maximal run of white space becomes one space.\<close>

function collapse_ws :: "string \<Rightarrow> string" where
  "collapse_ws [] = []"
| "collapse_ws (c # cs) =
     (if is_space c then CHR '' '' # collapse_ws (dropWhile is_space cs)
      else c # collapse_ws cs)"
  by pat_completeness auto
termination
proof (relation "measure length")
  fix c :: char and cs :: string
  show "(dropWhile is_space cs, c # cs) \<in> measure length"
    using length_dropWhile_le[of is_space cs] by simp
qed simp_all

text \<open>
  \<open>re.sub(r'[^\w\s\.\!\?\,\:\;\-\(\)]', ' ', text)\<close>: a character that is neither a word
  character (letter, digit, underscore), nor white space, nor one of \<open>. ! ? , : ; - ( )\<close>
  becomes a space.
\<close>

definition is_word_char :: "char \<Rightarrow> bool" where
  "is_word_char c =
     (let n = of_char c :: nat
      in (48 \<le> n \<and> n \<le> 57) \<or> (65 \<le> n \<and> n \<le> 90) \<or> (97 \<le> n \<and> n \<le> 122) \<or> n = 95)"

definition keep_char :: "char \<Rightarrow> bool" where
  "keep_char c = (is_word_char c \<or> is_space c \<or> c \<in> set ''.!?,:;-()'')"

definition clean_text :: "string \<Rightarrow> string" where
  "clean_text text =
     str_strip (map (\<lambda>c. if keep_char c then c else CHR '' '') (collapse_ws (strip_tags text)))"

section \<open>The indexing pipeline\<close>

text \<open>\<open>str(n)\<close> for a natural number, as the f-strings of the ids render it.\<close>

fun show_nat :: "nat \<Rightarrow> string" where
  "show_nat n =
     (if n < 10 then [char_of (48 + n)] else show_nat (n div 10) @ [char_of (48 + n mod 10)])"

declare show_nat.simps [simp del]

text \<open>
  A runbook of the JSON file.  A key that may be absent is an option; \<open>content\<close> is a
  dictionary with an optional \<open>body\<close>, or another value given by its \<open>str\<close>; \<open>rb_space\<close> is
  \<open>Some k\<close> when \<open>space\<close> is a dictionary, \<open>k\<close> its optional \<open>key\<close>.
\<close>

datatype content = ContentDict "string option" | ContentOther string

record runbook =
  rb_id :: "string option"
  rb_title :: "string option"
  rb_url :: "string option"
  rb_content :: "content option"
  rb_space :: "string option option"

definition text_content :: "runbook \<Rightarrow> string" where
  "text_content runbook =
     (case rb_content runbook of
        None \<Rightarrow> []
      | Some (ContentDict body) \<Rightarrow> (case body of None \<Rightarrow> [] | Some b \<Rightarrow> b)
      | Some (ContentOther s) \<Rightarrow> s)"

record metadata =
  md_runbook_id :: string
  md_runbook_title :: string
  md_runbook_url :: string
  md_chunk_index :: nat
  md_total_chunks :: nat
  md_word_count :: nat
  md_space :: string

record chunk_data =
  cd_id :: string
  cd_text :: string
  cd_metadata :: metadata

definition get_or :: "'a option \<Rightarrow> 'a \<Rightarrow> 'a" where
  "get_or v d = (case v of None \<Rightarrow> d | Some x \<Rightarrow> x)"

definition space_key :: "runbook \<Rightarrow> string" where
  "space_key runbook =
     (case rb_space runbook of None \<Rightarrow> ''DEVOPS'' | Some k \<Rightarrow> get_or k ''DEVOPS'')"

text \<open>
  \<open>EfficientRunbookIndexer.process_runbook\<close>.  The result is \<open>None\<close> when \<open>chunk_text\<close> does
  not return.
\<close>

definition make_chunk_data :: "runbook \<Rightarrow> nat \<Rightarrow> string \<Rightarrow> nat \<Rightarrow> nat \<times> string \<Rightarrow> chunk_data" where
  "make_chunk_data runbook idx title n_chunks ic =
     \<lparr>cd_id = get_or (rb_id runbook) (''unknown_'' @ show_nat idx) @ ''_'' @ show_nat (fst ic),
      cd_text = snd ic,
      cd_metadata =
        \<lparr>md_runbook_id = get_or (rb_id runbook) [],
         md_runbook_title = title,
         md_runbook_url = get_or (rb_url runbook) [],
         md_chunk_index = fst ic,
         md_total_chunks = n_chunks,
         md_word_count = length (split_ws (snd ic)),
         md_space = space_key runbook\<rparr>\<rparr>"

definition process_runbook :: "int \<Rightarrow> int \<Rightarrow> runbook \<Rightarrow> nat \<Rightarrow> chunk_data list option" where
  "process_runbook chunk_size overlap runbook idx =
     (let title = get_or (rb_title runbook) (''Runbook '' @ show_nat idx);
          cleaned = clean_text (text_content runbook)
      in if length cleaned < 50 then Some []
         else case chunk_text chunk_size overlap cleaned of
                None \<Rightarrow> None
              | Some chunks \<Rightarrow>
                  Some (map (make_chunk_data runbook idx title (length chunks))
                         (enumerate 0 chunks)))"

text \<open>
  The vector index: the records by id, each an embedding, the metadata and the text.

  Modelled from the spec: the collection of the vector store is not part of the
  repository.  Adding records is the \<open>upsert\<close> of the spec (4.4), which inserts or
  overwrites records keyed by id; the embedding provider is a function of the text (4.3:
  deterministic for identical input).
\<close>

type_synonym 'v index = "string \<rightharpoonup> ('v \<times> metadata \<times> string)"

definition collection_add ::
  "string list \<Rightarrow> 'v list \<Rightarrow> metadata list \<Rightarrow> string list \<Rightarrow> 'v index \<Rightarrow> 'v index" where
  "collection_add ids embeddings metadatas documents collection =
     fold (\<lambda>(i, r) c. c(i \<mapsto> r)) (zip ids (zip embeddings (zip metadatas documents))) collection"

text \<open>\<open>EfficientRunbookIndexer.embed_and_store\<close>\<close>

definition embed_and_store :: "(string \<Rightarrow> 'v) \<Rightarrow> chunk_data list \<Rightarrow> 'v index \<Rightarrow> 'v index" where
  "embed_and_store encode chunk_datas collection =
     (if chunk_datas = [] then collection
      else let texts = map cd_text chunk_datas;
               ids = map cd_id chunk_datas;
               metadatas = map cd_metadata chunk_datas;
               embeddings = map encode texts
           in collection_add ids embeddings metadatas texts collection)"

text \<open>The record that storing a chunk writes, with its id.\<close>

definition stored :: "(string \<Rightarrow> 'v) \<Rightarrow> chunk_data \<Rightarrow> string \<times> 'v \<times> metadata \<times> string" where
  "stored encode cd = (cd_id cd, encode (cd_text cd), cd_metadata cd, cd_text cd)"

text \<open>
  \<open>EfficientRunbookIndexer.index_runbooks\<close>: the runbooks of a batch are processed with
  their one-based position, and the chunks of the batch are stored together.
  \<open>batch_starts\<close> is \<open>range(0, len(runbooks), batch_size)\<close>, which raises \<open>ValueError\<close> for the
  step 0.
\<close>

fun process_batch :: "int \<Rightarrow> int \<Rightarrow> runbook list \<Rightarrow> nat \<Rightarrow> chunk_data list option" where
  "process_batch chunk_size overlap [] i = Some []"
| "process_batch chunk_size overlap (runbook # batch) i =
     (case process_runbook chunk_size overlap runbook i of
        None \<Rightarrow> None
      | Some chunks \<Rightarrow>
          (case process_batch chunk_size overlap batch (i + 1) of
             None \<Rightarrow> None
           | Some rest \<Rightarrow> Some (chunks @ rest)))"

definition batch_starts :: "nat \<Rightarrow> nat \<Rightarrow> nat list" where
  "batch_starts n batch_size = map (\<lambda>k. k * batch_size) [0 ..< (n + batch_size - 1) div batch_size]"

fun index_batches ::
  "(string \<Rightarrow> 'v) \<Rightarrow> int \<Rightarrow> int \<Rightarrow> runbook list \<Rightarrow> nat \<Rightarrow> nat list \<Rightarrow> 'v index \<times> nat \<Rightarrow>
   ('v index \<times> nat) option" where
  "index_batches encode chunk_size overlap runbooks batch_size [] state = Some state"
| "index_batches encode chunk_size overlap runbooks batch_size (batch_start # starts) state =
     (let batch = take batch_size (drop batch_start runbooks)
      in case process_batch chunk_size overlap batch (batch_start + 1) of
           None \<Rightarrow> None
         | Some all_chunk_datas \<Rightarrow>
             index_batches encode chunk_size overlap runbooks batch_size starts
               (embed_and_store encode all_chunk_datas (fst state),
                snd state + length all_chunk_datas))"

datatype error = ValueError

definition index_runbooks ::
  "(string \<Rightarrow> 'v) \<Rightarrow> int \<Rightarrow> int \<Rightarrow> runbook list \<Rightarrow> nat \<Rightarrow> 'v index \<Rightarrow>
   (error + 'v index \<times> nat) option" where
  "index_runbooks encode chunk_size overlap runbooks batch_size collection =
     (if batch_size = 0 then Some (Inl ValueError)
      else map_option Inr
             (index_batches encode chunk_size overlap runbooks batch_size
                (batch_starts (length runbooks) batch_size) (collection, 0)))"

text \<open>
  The storing step of \<open>RunbookIndexer.index_runbooks\<close> (test/indexing_pipeline.py):
  \<open>collection.delete()\<close> inside \<open>try\<close>/\<open>except: pass\<close>, then the records in batches of 1000.
  Whether the call without arguments clears the collection or raises is the vector
  store's; \<open>delete_raises\<close> says which.
\<close>

function add_batches :: "(string \<Rightarrow> 'v) \<Rightarrow> chunk_data list \<Rightarrow> nat \<Rightarrow> 'v index \<Rightarrow> 'v index" where
  "add_batches encode all_chunks i collection =
     (if i < length all_chunks then
        (let end_idx = min (i + 1000) (length all_chunks);
             batch = take (end_idx - i) (drop i all_chunks)
         in add_batches encode all_chunks (i + 1000)
              (collection_add (map cd_id batch) (map (encode \<circ> cd_text) batch)
                 (map cd_metadata batch) (map cd_text batch) collection))
      else collection)"
  by pat_completeness auto
termination
  by (relation "measure (\<lambda>(encode, all_chunks, i, collection). length all_chunks - i)") auto

declare add_batches.simps [simp del]

definition store_chunks :: "bool \<Rightarrow> (string \<Rightarrow> 'v) \<Rightarrow> chunk_data list \<Rightarrow> 'v index \<Rightarrow> 'v index" where
  "store_chunks delete_raises encode all_chunks collection =
     (if all_chunks = [] then collection
      else add_batches encode all_chunks 0 (if delete_raises then collection else Map.empty))"

text \<open>
  \<open>EfficientRunbookIndexer.__init__\<close>: the chunk size and the overlap are stored as given;
  the collection is the existing one or, when \<open>get_collection\<close> raises, a new, empty one.
  The embedding model and the client of the vector store are taken to load.
\<close>

record 'v indexer =
  ix_chunk_size :: int
  ix_overlap :: int
  ix_collection :: "'v index"

definition init :: "'v index option \<Rightarrow> int \<Rightarrow> int \<Rightarrow> error + 'v indexer" where
  "init existing chunk_size overlap =
     Inr \<lparr>ix_chunk_size = chunk_size, ix_overlap = overlap,
          ix_collection = (case existing of Some c \<Rightarrow> c | None \<Rightarrow> Map.empty)\<rparr>"

section \<open>The query engines\<close>

text \<open>
  Relevance scores and distances are modelled as real numbers.  The engines only compare a
  score with the literal \<open>0.6\<close> and order scores; the comparison of two floating-point
  numbers is the comparison of their values, and a floating-point score exceeds the
  floating-point number nearest to \<open>0.6\<close> exactly when its value exceeds \<open>0.6\<close>.

  The calls that reach a collaborator are recorded, in order.
\<close>

datatype call =
  VectorQuery string int
| Analyze string
| Synthesize string
| CreateRunbook string

record source =
  src_title :: string
  src_url :: string
  src_relevance :: real

subsection \<open>\<open>SimpleRAGSystem\<close> (simple_rag.py)\<close>

text \<open>A record returned by the query of the vector store, with the metadata read by \<open>get\<close>.\<close>

record hit =
  hit_document :: string
  hit_runbook_id :: "string option"
  hit_runbook_title :: "string option"
  hit_runbook_url :: "string option"
  hit_chunk_index :: "nat option"
  hit_distance :: real

record search_result =
  sr_text :: string
  sr_runbook_id :: "string option"
  sr_title :: string
  sr_url :: string
  sr_chunk_index :: "nat option"
  relevance_score :: real

text \<open>
  The collaborators: the query of the vector store (\<open>Inl\<close> when it raises), the answer
  synthesis of \<open>generate_answer\<close> with its own fallbacks, and the runbook creator with the
  defaults of \<open>create_result.get\<close> applied.
\<close>

record rag_env =
  vector_query :: "string \<Rightarrow> int \<Rightarrow> string + hit list"
  generate_answer :: "string \<Rightarrow> search_result list \<Rightarrow> string"
  create_intelligent_runbook :: "string \<Rightarrow> bool \<times> string"

record rag_system =
  runbooks_data :: "runbook list"
  use_vector_search :: bool

definition fallback_result :: "runbook \<Rightarrow> search_result" where
  "fallback_result runbook =
     \<lparr>sr_text = take 500 (text_content runbook),
      sr_runbook_id = rb_id runbook,
      sr_title = get_or (rb_title runbook) [],
      sr_url = get_or (rb_url runbook) [],
      sr_chunk_index = Some 0,
      relevance_score = 1\<rparr>"

definition fallback_match :: "string \<Rightarrow> runbook \<Rightarrow> bool" where
  "fallback_match query_lower runbook =
     sublist query_lower (collapse_ws (str_lower (text_content runbook)))"

definition fallback_text_search :: "rag_system \<Rightarrow> string \<Rightarrow> int \<Rightarrow> search_result list" where
  "fallback_text_search sys query top_k =
     (let query_lower = str_strip (str_lower query);
          results = map fallback_result (filter (fallback_match query_lower) (runbooks_data sys))
      in py_slice results 0 top_k)"

definition vector_result :: "hit \<Rightarrow> search_result" where
  "vector_result h =
     \<lparr>sr_text = hit_document h,
      sr_runbook_id = hit_runbook_id h,
      sr_title = get_or (hit_runbook_title h) [],
      sr_url = get_or (hit_runbook_url h) [],
      sr_chunk_index = hit_chunk_index h,
      relevance_score = 1 / (1 + hit_distance h)\<rparr>"

text \<open>
  \<open>search_chunks\<close>: any exception inside \<open>try\<close> (the query raising, or the division by zero
  for the distance \<open>-1\<close>) leads to the fallback search.
\<close>

definition search_chunks ::
  "rag_env \<Rightarrow> rag_system \<Rightarrow> string \<Rightarrow> int \<Rightarrow> search_result list \<times> call list" where
  "search_chunks env sys query top_k =
     (if use_vector_search sys then
        (case vector_query env query top_k of
           Inr hits \<Rightarrow>
             if list_ex (\<lambda>h. 1 + hit_distance h = 0) hits
             then (fallback_text_search sys query top_k, [VectorQuery query top_k])
             else (map vector_result hits, [VectorQuery query top_k])
         | Inl e \<Rightarrow> (fallback_text_search sys query top_k, [VectorQuery query top_k]))
      else (fallback_text_search sys query top_k, []))"

text \<open>
  The response of \<open>process_query\<close>; a key that a branch leaves out is \<open>None\<close>.  The
  processing time and the fields of the issue analysis are left out.
\<close>

record response =
  rs_answer :: string
  rs_query :: string
  rs_chunks_found :: nat
  rs_sources :: "source list option"
  rs_suggest_creation :: "bool option"
  rs_can_create_runbook :: "bool option"
  rs_runbook_created :: "bool option"
  rs_generated_runbook :: "string option"

definition meaningful_results :: "search_result list \<Rightarrow> search_result list" where
  "meaningful_results results = filter (\<lambda>r. relevance_score r > 0.6) results"

definition result_source :: "search_result \<Rightarrow> source" where
  "result_source r = \<lparr>src_title = sr_title r, src_url = sr_url r, src_relevance = relevance_score r\<rparr>"

definition process_query ::
  "rag_env \<Rightarrow> rag_system \<Rightarrow> string \<Rightarrow> bool \<Rightarrow> response \<times> call list" where
  "process_query env sys query create_if_missing =
     (if query = [] \<or> length (str_strip query) < 3 then
        (\<lparr>rs_answer = ''Please ask a more specific question.'', rs_query = query,
          rs_chunks_found = 0, rs_sources = None, rs_suggest_creation = None,
          rs_can_create_runbook = None, rs_runbook_created = None,
          rs_generated_runbook = None\<rparr>, [])
      else
        (let found = search_chunks env sys query 5;
             results = fst found;
             calls = snd found @ [Analyze query];
             meaningful = meaningful_results results
         in if results = [] \<or> length meaningful = 0 then
              (if create_if_missing then
                 (\<lparr>rs_answer = generate_answer env query [], rs_query = query,
                   rs_chunks_found = length results, rs_sources = Some [],
                   rs_suggest_creation = Some True, rs_can_create_runbook = Some True,
                   rs_runbook_created = Some (fst (create_intelligent_runbook env query)),
                   rs_generated_runbook = Some (snd (create_intelligent_runbook env query))\<rparr>,
                  calls @ [Synthesize query, CreateRunbook query])
               else
                 (\<lparr>rs_answer = generate_answer env query [], rs_query = query,
                   rs_chunks_found = length results, rs_sources = Some [],
                   rs_suggest_creation = Some True, rs_can_create_runbook = Some True,
                   rs_runbook_created = None, rs_generated_runbook = None\<rparr>,
                  calls @ [Synthesize query]))
            else
              (\<lparr>rs_answer = generate_answer env query meaningful, rs_query = query,
                rs_chunks_found = length meaningful,
                rs_sources = Some (map result_source meaningful),
                rs_suggest_creation = Some False, rs_can_create_runbook = Some False,
                rs_runbook_created = None, rs_generated_runbook = None\<rparr>,
               calls @ [Synthesize query])))"

subsection \<open>\<open>RAGProcessor\<close> (rag_processor.py)\<close>

record chunk_info =
  ci_content :: string
  ci_metadata :: metadata
  ci_relevance_score :: real
  ci_rank :: nat

text \<open>
  The parts that \<open>format_context_for_llm\<close> appends: for the first chunk of a runbook the
  two header lines, and for every chunk its content.  A part carries the id of its runbook,
  which the text does not show.
\<close>

datatype part = Header string string string | Body string string

fun render_part :: "part \<Rightarrow> string list" where
  "render_part (Header runbook_id title url) =
     [''\<newline>--- '' @ title @ '' ---'', ''Source: '' @ url]"
| "render_part (Body runbook_id content) = [''\<newline>'' @ content]"

fun context_parts :: "chunk_info list \<Rightarrow> string set \<Rightarrow> part list" where
  "context_parts [] seen_runbooks = []"
| "context_parts (chunk # chunks) seen_runbooks =
     (let m = ci_metadata chunk; runbook_id = md_runbook_id m
      in if runbook_id \<notin> seen_runbooks
         then Header runbook_id (md_runbook_title m) (md_runbook_url m)
              # Body runbook_id (ci_content chunk)
              # context_parts chunks (insert runbook_id seen_runbooks)
         else Body runbook_id (ci_content chunk) # context_parts chunks seen_runbooks)"

fun join_nl :: "string list \<Rightarrow> string" where
  "join_nl [] = []"
| "join_nl [l] = l"
| "join_nl (l # k # ls) = l @ ''\<newline>'' @ join_nl (k # ls)"

definition format_context_for_llm :: "chunk_info list \<Rightarrow> string" where
  "format_context_for_llm chunks = join_nl (concat (map render_part (context_parts chunks {})))"

text \<open>
  \<open>extract_source_urls\<close>: the dictionary \<open>sources\<close> in insertion order, then the stable sort
  by descending relevance.
\<close>

fun collect_sources :: "chunk_info list \<Rightarrow> (string \<times> source) list \<Rightarrow> (string \<times> source) list" where
  "collect_sources [] sources = sources"
| "collect_sources (chunk # chunks) sources =
     (let m = ci_metadata chunk; runbook_id = md_runbook_id m
      in if runbook_id \<notin> fst ` set sources
         then collect_sources chunks
                (sources @ [(runbook_id, \<lparr>src_title = md_runbook_title m,
                                          src_url = md_runbook_url m,
                                          src_relevance = ci_relevance_score chunk\<rparr>)])
         else collect_sources chunks sources)"

definition extract_source_urls :: "chunk_info list \<Rightarrow> source list" where
  "extract_source_urls chunks =
     sort_key (\<lambda>x. - src_relevance x) (map snd (collect_sources chunks []))"

text \<open>
  The collaborators of \<open>RAGProcessor\<close>: the embedding of the query and the query of the
  vector store (\<open>Inl\<close> with the message when one of them raises), and the answer from the
  query and the context.
\<close>

record rp_hit =
  rh_document :: string
  rh_metadata :: metadata
  rh_distance :: real

record rp_env =
  rp_query_index :: "string \<Rightarrow> int \<Rightarrow> string + rp_hit list"
  rp_generate_answer :: "string \<Rightarrow> string \<Rightarrow> string"

record rp_response =
  rp_answer :: string
  rp_sources :: "source list"
  rp_query :: string
  rp_chunks_found :: nat
  rp_chunks_used :: "chunk_info list option"

definition relevant_chunk :: "nat \<times> rp_hit \<Rightarrow> chunk_info" where
  "relevant_chunk ih =
     \<lparr>ci_content = rh_document (snd ih), ci_metadata = rh_metadata (snd ih),
      ci_relevance_score = 1 - rh_distance (snd ih), ci_rank = fst ih + 1\<rparr>"

definition rp_process_query :: "rp_env \<Rightarrow> string \<Rightarrow> int \<Rightarrow> rp_response \<times> call list" where
  "rp_process_query env query top_k =
     (if query = [] \<or> length (str_strip query) < 3 then
        (\<lparr>rp_answer = ''Please provide a more specific question.'', rp_sources = [],
          rp_query = query, rp_chunks_found = 0, rp_chunks_used = None\<rparr>, [])
      else
        (case rp_query_index env query top_k of
           Inl e \<Rightarrow>
             (\<lparr>rp_answer = ''Sorry, I encountered an error while processing your query: '' @ e,
               rp_sources = [], rp_query = query, rp_chunks_found = 0,
               rp_chunks_used = None\<rparr>, [VectorQuery query top_k])
         | Inr hits \<Rightarrow>
             (let relevant_chunks = map relevant_chunk (enumerate 0 hits)
              in if relevant_chunks = [] then
                   (\<lparr>rp_answer = ''I couldn't find any relevant information in the runbooks for your query. Please try rephrasing your question or check if the topic is covered in our runbooks.'',
                     rp_sources = [], rp_query = query, rp_chunks_found = 0,
                     rp_chunks_used = None\<rparr>, [VectorQuery query top_k])
                 else
                   (\<lparr>rp_answer =
                       rp_generate_answer env query (format_context_for_llm relevant_chunks),
                     rp_sources = extract_source_urls relevant_chunks, rp_query = query,
                     rp_chunks_found = length relevant_chunks,
                     rp_chunks_used = Some relevant_chunks\<rparr>,
                    [VectorQuery query top_k, Synthesize query]))))"

text \<open>What a part is, and the runbook it belongs to.\<close>

fun is_header :: "part \<Rightarrow> bool" where
  "is_header (Header runbook_id title url) = True"
| "is_header (Body runbook_id content) = False"

fun part_runbook :: "part \<Rightarrow> string" where
  "part_runbook (Header runbook_id title url) = runbook_id"
| "part_runbook (Body runbook_id content) = runbook_id"

definition chunk_runbook :: "chunk_info \<Rightarrow> string" where
  "chunk_runbook chunk = md_runbook_id (ci_metadata chunk)"

definition chunk_source :: "chunk_info \<Rightarrow> source" where
  "chunk_source chunk =
     \<lparr>src_title = md_runbook_title (ci_metadata chunk),
      src_url = md_runbook_url (ci_metadata chunk),
      src_relevance = ci_relevance_score chunk\<rparr>"

section \<open>Sample collaborators and documents\<close>

text \<open>Concrete collaborators and runbooks, for the instances stated below.\<close>

definition empty_store_env :: rag_env where
  "empty_store_env =
     \<lparr>vector_query = (\<lambda>query top_k. Inr []),
      generate_answer = (\<lambda>query chunks. ''answer''),
      create_intelligent_runbook = (\<lambda>query. (False, ''No runbook created.''))\<rparr>"

definition unavailable_store_env :: rag_env where
  "unavailable_store_env =
     \<lparr>vector_query = (\<lambda>query top_k. Inl ''IndexUnavailable''),
      generate_answer = (\<lambda>query chunks. ''answer''),
      create_intelligent_runbook = (\<lambda>query. (False, ''No runbook created.''))\<rparr>"

definition scored_store_env :: rag_env where
  "scored_store_env =
     \<lparr>vector_query = (\<lambda>query top_k.
        Inr (map (\<lambda>d. \<lparr>hit_document = ''chunk'', hit_runbook_id = Some ''A'',
                         hit_runbook_title = Some ''Jenkins'', hit_runbook_url = Some ''u'',
                         hit_chunk_index = Some 0, hit_distance = d\<rparr>)
               [1 / 9, 3 / 7, 1, 7 / 3])),
      generate_answer = (\<lambda>query chunks. ''answer''),
      create_intelligent_runbook = (\<lambda>query. (False, ''No runbook created.''))\<rparr>"

definition disk_runbook :: runbook where
  "disk_runbook =
     \<lparr>rb_id = Some ''A'', rb_title = Some ''Disk alerts'', rb_url = Some ''http://wiki/A'',
      rb_content = Some (ContentDict (Some ''Jenkins build fails when the disk  full alert fires'')),
      rb_space = None\<rparr>"

definition long_runbook :: runbook where
  "long_runbook =
     \<lparr>rb_id = Some ''A'', rb_title = Some ''T'', rb_url = None,
      rb_content = Some (ContentDict
        (Some ''aaaaaaaaaa bbbbbbbbbb cccccccccc dddddddddd eeeeeeeeee ffffffffff'')),
      rb_space = None\<rparr>"

definition short_runbook :: runbook where
  "short_runbook =
     \<lparr>rb_id = Some ''A'', rb_title = Some ''T'', rb_url = None,
      rb_content = Some (ContentDict
        (Some ''aaaaaaaaaa bbbbbbbbbb cccccccccc dddddddddd eeeeeeeeee'')),
      rb_space = None\<rparr>"

definition length_encoder :: "string \<Rightarrow> nat" where
  "length_encoder t = length t"

definition ranked_chunks :: "chunk_info list" where
  "ranked_chunks =
     [\<lparr>ci_content = ''c1'',
       ci_metadata = \<lparr>md_runbook_id = ''A'', md_runbook_title = ''Jenkins'', md_runbook_url = ''uA'',
                      md_chunk_index = 0, md_total_chunks = 2, md_word_count = 1,
                      md_space = ''DEVOPS''\<rparr>,
       ci_relevance_score = 0.9, ci_rank = 1\<rparr>,
      \<lparr>ci_content = ''c2'',
       ci_metadata = \<lparr>md_runbook_id = ''B'', md_runbook_title = ''Kubernetes'', md_runbook_url = ''uB'',
                      md_chunk_index = 0, md_total_chunks = 1, md_word_count = 1,
                      md_space = ''DEVOPS''\<rparr>,
       ci_relevance_score = 0.8, ci_rank = 2\<rparr>,
      \<lparr>ci_content = ''c3'',
       ci_metadata = \<lparr>md_runbook_id = ''A'', md_runbook_title = ''Jenkins'', md_runbook_url = ''uA'',
                      md_chunk_index = 1, md_total_chunks = 2, md_word_count = 1,
                      md_space = ''DEVOPS''\<rparr>,
       ci_relevance_score = 0.7, ci_rank = 3\<rparr>]"


definition low_relevance_env :: rp_env where
  "low_relevance_env =
     \<lparr>rp_query_index = (\<lambda>query top_k.
        Inr [\<lparr>rh_document = ''chunk'',
              rh_metadata = \<lparr>md_runbook_id = ''B'', md_runbook_title = ''Kubernetes'',
                             md_runbook_url = ''uB'', md_chunk_index = 0, md_total_chunks = 1,
                             md_word_count = 1, md_space = ''DEVOPS''\<rparr>,
              rh_distance = 9 / 10\<rparr>]),
      rp_generate_answer = (\<lambda>query context. ''answer'')\<rparr>"

section \<open>Properties of the chunker\<close>

subsection \<open>The windows of the loop\<close>

lemma window_bounds_unfold:
  "start < n \<Longrightarrow> ov < cs \<Longrightarrow> min (start + cs) n \<noteq> n \<Longrightarrow>
   window_bounds cs ov n start = (start, start + cs) # window_bounds cs ov n (start + cs - ov)"
  by (subst window_bounds.simps) (simp only: if_True if_False simp_thms)

lemma window_bounds_single:
  "start < n \<Longrightarrow> ov < cs \<Longrightarrow> min (start + cs) n = n \<Longrightarrow>
   window_bounds cs ov n start = [(start, n)]"
  by (subst window_bounds.simps) (simp only: if_True if_False simp_thms)

lemma window_bounds_empty:
  "\<not> (start < n \<and> ov < cs) \<Longrightarrow> window_bounds cs ov n start = []"
  by (subst window_bounds.simps) simp

lemma window_bounds_mem:
  "(s, e) \<in> set (window_bounds cs ov n start) \<Longrightarrow> start \<le> s \<and> s < n \<and> e = min (s + cs) n"
proof (induction cs ov n start rule: window_bounds.induct)
  case (1 cs ov n start)
  show ?case
  proof (cases "start < n \<and> ov < cs")
    case False
    with 1(2) show ?thesis by (simp add: window_bounds_empty)
  next
    case g: True
    show ?thesis
    proof (cases "min (start + cs) n = n")
      case True
      with g 1(2) show ?thesis by (simp add: window_bounds_single)
    next
      case False
      with g 1(2) have "(s, e) = (start, start + cs) \<or>
          (s, e) \<in> set (window_bounds cs ov n (start + cs - ov))"
        by (simp add: window_bounds_unfold)
      then show ?thesis
      proof
        assume "(s, e) = (start, start + cs)"
        with g False show ?thesis by (auto simp: min_def split: if_splits)
      next
        assume "(s, e) \<in> set (window_bounds cs ov n (start + cs - ov))"
        from 1(1)[OF g False this] g show ?thesis by auto
      qed
    qed
  qed
qed

lemma window_bounds_cover:
  "0 \<le> ov \<Longrightarrow> ov < cs \<Longrightarrow> start \<le> j \<Longrightarrow> j < n \<Longrightarrow>
   \<exists>(s, e) \<in> set (window_bounds cs ov n start). s \<le> j \<and> j < e"
proof (induction cs ov n start rule: window_bounds.induct)
  case (1 cs ov n start)
  show ?case
  proof (cases "min (start + cs) n = n")
    case True
    with 1(2-) show ?thesis by (subst window_bounds.simps) auto
  next
    case False
    show ?thesis
    proof (cases "j < start + cs")
      case True
      with False 1(2-) show ?thesis by (subst window_bounds.simps) auto
    next
      case j: False
      have "\<exists>(s, e) \<in> set (window_bounds cs ov n (start + cs - ov)). s \<le> j \<and> j < e"
        using 1(1)[OF _ False] 1(2-) j by auto
      with False 1(2-) show ?thesis by (subst window_bounds.simps) auto
    qed
  qed
qed

lemma window_bounds_step:
  "Suc i < length (window_bounds cs ov n start) \<Longrightarrow>
   \<exists>s. start \<le> s \<and> s + cs < n \<and> window_bounds cs ov n start ! i = (s, s + cs) \<and>
       window_bounds cs ov n start ! Suc i = (s + cs - ov, min (s + cs - ov + cs) n)"
proof (induction cs ov n start arbitrary: i rule: window_bounds.induct)
  case (1 cs ov n start)
  have g: "start < n \<and> ov < cs" and m: "min (start + cs) n \<noteq> n"
    using 1(2) by (subst (asm) window_bounds.simps, simp split: if_splits)+
  have unf: "window_bounds cs ov n start = (start, start + cs) # window_bounds cs ov n (start + cs - ov)"
    using g m by (simp add: window_bounds_unfold)
  let ?rest = "window_bounds cs ov n (start + cs - ov)"
  show ?case
  proof (cases i)
    case 0
    have ne: "?rest \<noteq> []" using 1(2) unf 0 by auto
    then obtain s e where h: "hd ?rest = (s, e)" "(s, e) \<in> set ?rest"
      by (cases ?rest) auto
    have g2: "start + cs - ov < n \<and> ov < cs" using ne by (subst (asm) window_bounds.simps) (simp split: if_splits)
    have "hd ?rest = (start + cs - ov, min (start + cs - ov + cs) n)"
      using g2 by (subst window_bounds.simps) (auto simp: min_def)
    moreover have "start + cs < n" using m by (simp add: min_def split: if_splits)
    ultimately show ?thesis using 0 unf ne by (cases ?rest) auto
  next
    case (Suc k)
    then have "Suc k < length ?rest" using 1(2) unf by simp
    from 1(1)[OF g m this] obtain s where
      "start + cs - ov \<le> s" "s + cs < n" "?rest ! k = (s, s + cs)"
      "?rest ! Suc k = (s + cs - ov, min (s + cs - ov + cs) n)" by blast
    with Suc unf g show ?thesis by (intro exI[of _ s]) auto
  qed
qed

lemma window_bounds_last:
  "0 \<le> ov \<Longrightarrow> window_bounds cs ov n start \<noteq> [] \<Longrightarrow> snd (last (window_bounds cs ov n start)) = n"
proof (induction cs ov n start rule: window_bounds.induct)
  case (1 cs ov n start)
  have g: "start < n \<and> ov < cs"
    using 1(3) by (subst (asm) window_bounds.simps, simp split: if_splits)
  show ?case
  proof (cases "min (start + cs) n = n")
    case True
    with g show ?thesis by (subst window_bounds.simps) simp
  next
    case False
    let ?rest = "window_bounds cs ov n (start + cs - ov)"
    have unf: "window_bounds cs ov n start = (start, start + cs) # ?rest"
      using g False by (simp add: window_bounds_unfold)
    have g2: "start + cs - ov < n" using False g 1(2) by (auto simp: min_def split: if_splits)
    have ne: "?rest \<noteq> []" using g g2 by (subst window_bounds.simps) auto
    from 1(1)[OF g False 1(2) ne] unf ne show ?thesis by simp
  qed
qed

lemma window_bounds_nonempty: "start < n \<Longrightarrow> ov < cs \<Longrightarrow> window_bounds cs ov n start \<noteq> []"
  by (subst window_bounds.simps) auto

lemma chunk_loop_windows:
  assumes "ov < cs" and "n = int (length words)"
  shows "chunk_loop cs ov words start acc =
         Some (acc @ map (\<lambda>(s, e). join_sp (py_slice words s e)) (window_bounds cs ov n start))"
  using assms
proof (induction cs ov n start arbitrary: acc rule: window_bounds.induct)
  case (1 cs ov n start)
  show ?case
  proof (cases "start < n")
    case False
    then show ?thesis using 1(3)
      by (subst chunk_loop.simps, subst window_bounds.simps) simp
  next
    case True
    show ?thesis
    proof (cases "min (start + cs) n = n")
      case e: True
      then show ?thesis using True 1(2,3)
        by (subst chunk_loop.simps, subst window_bounds.simps) (simp add: Let_def)
    next
      case e: False
      then have m: "min (start + cs) n = start + cs" by (simp add: min_def split: if_splits)
      have ih: "chunk_loop cs ov words (start + cs - ov) acc' =
         Some (acc' @ map (\<lambda>(s, e). join_sp (py_slice words s e)) (window_bounds cs ov n (start + cs - ov)))" for acc'
        using 1(1)[OF _ e 1(2) 1(3)] True 1(2) by simp
      show ?thesis using True 1(2,3) e m
        by (subst chunk_loop.simps, subst window_bounds.simps) (simp add: Let_def ih)
    qed
  qed
qed

subsection \<open>The loop of \<open>RunbookIndexer.chunk_text\<close>\<close>

lemma runbook_loop_diverges_aux:
  assumes "runbook_chunk_loop cs ov words start chunks = Some y"
  shows "\<not> (0 < ov \<and> start < int (length words))"
proof (rule runbook_chunk_loop.raw_induct
    [where P = "\<lambda>cs ov words start chunks y. \<not> (0 < ov \<and> start < int (length words))", OF _ assms])
  fix f :: "int \<Rightarrow> int \<Rightarrow> string list \<Rightarrow> int \<Rightarrow> string list \<Rightarrow> string list option"
    and cs ov start :: int and words chunks y :: "string list"
  assume IH: "\<And>cs ov words start chunks y. f cs ov words start chunks = Some y \<Longrightarrow>
                \<not> (0 < ov \<and> start < int (length (words :: string list)))"
  assume body: "(if start < int (length words)
      then let end = min (start + cs) (int (length words));
               chunks' = chunks @ [join_sp (py_slice words start end)];
               start' = end - ov
           in if int (length words) \<le> start' then Some chunks'
              else f cs ov words start' chunks'
      else Some chunks) = Some y"
  show "\<not> (0 < ov \<and> start < int (length words))"
  proof
    assume a: "0 < ov \<and> start < int (length words)"
    then have lt: "min (start + cs) (int (length words)) - ov < int (length words)" by linarith
    with a body have "f cs ov words (min (start + cs) (int (length words)) - ov)
        (chunks @ [join_sp (py_slice words start (min (start + cs) (int (length words))))]) = Some y"
      by (simp add: Let_def)
    from IH[OF this] a lt show False by simp
  qed
qed

subsection \<open>Splitting a joined chunk\<close>

lemma split_acc_nonspace:
  "\<forall>c \<in> set u. \<not> is_space c \<Longrightarrow> split_acc w (u @ rest) = split_acc (w @ u) rest"
  by (induction u arbitrary: w) auto

lemma split_acc_join:
  "\<forall>w \<in> set ws. word_ok w \<Longrightarrow> split_acc [] (join_sp ws) = ws"
proof (induction ws rule: join_sp.induct)
  case 1
  then show ?case by simp
next
  case (2 w)
  then have "split_acc [] (w @ []) = split_acc ([] @ w) []"
    by (intro split_acc_nonspace) (simp add: word_ok_def)
  with 2 show ?case by (simp add: word_ok_def)
next
  case (3 w v ws)
  have sp: "is_space CHR '' ''" by (simp add: is_space_def)
  have "split_acc [] (w @ '' '' @ join_sp (v # ws)) = split_acc ([] @ w) ('' '' @ join_sp (v # ws))"
    using 3(2) by (intro split_acc_nonspace) (simp add: word_ok_def)
  also have "\<dots> = w # split_acc [] (join_sp (v # ws))"
    using 3(2) sp by (simp add: word_ok_def)
  finally show ?case using 3 by simp
qed

lemma split_ws_join: "\<forall>w \<in> set ws. word_ok w \<Longrightarrow> split_ws (join_sp ws) = ws"
  by (simp add: split_ws_def split_acc_join)

lemma split_acc_words_ok:
  "\<forall>c \<in> set w. \<not> is_space c \<Longrightarrow> \<forall>x \<in> set (split_acc w s). word_ok x"
proof (induction s arbitrary: w)
  case Nil
  then show ?case by (simp add: word_ok_def)
next
  case (Cons c s)
  show ?case
  proof (cases "is_space c")
    case True
    have "\<forall>x \<in> set (split_acc [] s). word_ok x" by (rule Cons.IH) simp
    with True Cons.prems show ?thesis by (simp add: word_ok_def)
  next
    case False
    have "\<forall>x \<in> set (split_acc (w @ [c]) s). word_ok x"
      using False Cons.prems by (intro Cons.IH) simp
    with False show ?thesis by simp
  qed
qed

lemma split_ws_words_ok: "\<forall>x \<in> set (split_ws s). word_ok x"
  using split_acc_words_ok[of "[]" s] by (simp add: split_ws_def)

lemma set_py_slice: "set (py_slice xs i j) \<subseteq> set xs"
  unfolding py_slice_def Let_def
  by (meson set_take_subset set_drop_subset subset_trans)

lemma split_ws_chunk: "split_ws (join_sp (py_slice (split_ws text) i j)) = py_slice (split_ws text) i j"
  using split_ws_words_ok[of "text"] set_py_slice[of "split_ws text" i j]
  by (intro split_ws_join) blast

lemma py_slice_nonneg:
  "0 \<le> i \<Longrightarrow> i \<le> j \<Longrightarrow> j \<le> int (length xs) \<Longrightarrow>
   py_slice xs i j = take (nat (j - i)) (drop (nat i) xs)"
proof -
  assume a: "0 \<le> i" "i \<le> j" "j \<le> int (length xs)"
  then have "nat i \<le> length xs" "nat j \<le> length xs" "nat j - nat i = nat (j - i)"
    by linarith+
  with a show ?thesis by (simp add: py_slice_def slice_bound_def Let_def min_def)
qed

lemma length_py_slice:
  "0 \<le> i \<Longrightarrow> i \<le> j \<Longrightarrow> j \<le> int (length xs) \<Longrightarrow> length (py_slice xs i j) = nat (j - i)"
  by (simp add: py_slice_nonneg)

subsection \<open>The chunks of \<open>EfficientRunbookIndexer.chunk_text\<close>\<close>

lemma chunk_text_windows:
  assumes "ov < cs" and "cs < int (length (split_ws text))"
  shows "chunk_text cs ov text =
         Some (map (\<lambda>(s, e). join_sp (py_slice (split_ws text) s e))
                (window_bounds cs ov (int (length (split_ws text))) 0))"
  using assms chunk_loop_windows[OF assms(1) refl, of "split_ws text" 0 "[]"]
  by (simp add: chunk_text_def Let_def)

lemma chunk_text_terminates:
  assumes "ov < cs"
  shows "\<exists>chunks. chunk_text cs ov text = Some chunks"
proof (cases "cs < int (length (split_ws text))")
  case True
  from chunk_text_windows[OF assms this] show ?thesis by blast
next
  case False
  then show ?thesis by (simp add: chunk_text_def Let_def)
qed

lemma chunk_loop_extends:
  assumes "chunk_loop cs ov words start acc = Some r"
  shows "\<exists>ys. r = acc @ ys"
proof (rule chunk_loop.raw_induct
    [where P = "\<lambda>cs ov words start acc r. \<exists>ys. r = acc @ ys", OF _ assms])
  fix f :: "int \<Rightarrow> int \<Rightarrow> string list \<Rightarrow> int \<Rightarrow> string list \<Rightarrow> string list option"
    and cs ov start :: int and words acc r :: "string list"
  assume IH: "\<And>cs ov words start acc r. f cs ov words start acc = Some r \<Longrightarrow> \<exists>ys. r = acc @ ys"
  assume body: "(if start < int (length words)
      then let end = min (start + cs) (int (length words));
               chunks' = acc @ [join_sp (py_slice words start end)]
           in if end = int (length words) then Some chunks'
              else f cs ov words (end - ov) chunks'
      else Some acc) = Some r"
  show "\<exists>ys. r = acc @ ys"
  proof (cases "start < int (length words)")
    case False
    with body show ?thesis by simp
  next
    case True
    let ?e = "min (start + cs) (int (length words))"
    let ?acc = "acc @ [join_sp (py_slice words start ?e)]"
    show ?thesis
    proof (cases "?e = int (length words)")
      case e: True
      with True body have "Some ?acc = Some r" by (simp only: Let_def if_True simp_thms)
      then have "r = ?acc" by simp
      then show ?thesis by blast
    next
      case e: False
      with True body have "f cs ov words (?e - ov) ?acc = Some r"
        by (simp only: Let_def if_True if_False)
      from IH[OF this] obtain ys where "r = ?acc @ ys" by blast
      then show ?thesis by simp
    qed
  qed
qed

lemma chunk_text_single:
  assumes "0 \<le> cs" and "chunk_text cs ov text = Some [c]"
  shows "int (length (split_ws c)) \<le> cs"
proof (cases "int (length (split_ws text)) \<le> cs")
  case True
  with assms(2) show ?thesis by (simp add: chunk_text_def Let_def)
next
  case False
  let ?words = "split_ws text"
  let ?n = "int (length ?words)"
  from False assms(1) have n: "0 < ?n" "min (0 + cs) ?n = cs" "cs \<noteq> ?n" by auto
  let ?c0 = "join_sp (py_slice ?words 0 cs)"
  from False assms(2) have "chunk_loop cs ov ?words 0 [] = Some [c]"
    by (simp add: chunk_text_def Let_def)
  then have "chunk_loop cs ov ?words (cs - ov) [?c0] = Some [c]"
    using n by (subst (asm) chunk_loop.simps) (simp add: Let_def)
  from chunk_loop_extends[OF this] have "c = ?c0" by simp
  then have "split_ws c = py_slice ?words 0 cs" by (simp add: split_ws_chunk)
  moreover have "length (py_slice ?words 0 cs) = nat (cs - 0)"
    using assms(1) False by (intro length_py_slice) auto
  ultimately show ?thesis using assms(1) by simp
qed

text \<open>
  Claim C7.  A text of at most \<open>chunk_size\<close> words is returned as the only chunk, unchanged;
  and whenever the chunker (with a chunk size that is not negative) returns a single chunk,
  chunking that chunk returns it again.
\<close>

theorem chunk_text_short_single:
  "(int (length (split_ws text)) \<le> cs \<longrightarrow> chunk_text cs ov text = Some [text]) \<and>
   (0 \<le> cs \<and> chunk_text cs ov text = Some [c] \<longrightarrow> chunk_text cs ov c = Some [c])"
proof (intro conjI impI)
  assume "int (length (split_ws text)) \<le> cs"
  then show "chunk_text cs ov text = Some [text]" by (simp add: chunk_text_def Let_def)
next
  assume "0 \<le> cs \<and> chunk_text cs ov text = Some [c]"
  then have "int (length (split_ws c)) \<le> cs" using chunk_text_single by blast
  then show "chunk_text cs ov c = Some [c]" by (simp add: chunk_text_def Let_def)
qed

theorem chunk_text_short_single_witness:
  "chunk_text 5 1 ''restart the  service'' = Some [''restart the  service''] \<and>
   chunk_text 2 (-5) ''a b c'' = Some [''a b''] \<and> chunk_text 2 (-5) ''a b'' = Some [''a b'']"
proof -
  have h1: "int (length (split_ws ''restart the  service'')) \<le> 5"
    by (simp add: split_ws_def is_space_def)
  have h2: "(0::int) \<le> 2 \<and> chunk_text 2 (-5) ''a b c'' = Some [''a b'']"
    by (simp add: chunk_text_def split_ws_def is_space_def chunk_loop.simps py_slice_def
        slice_bound_def)
  from chunk_text_short_single[of "''restart the  service''" 5 1 "''a b''"] h1
  have "chunk_text 5 1 ''restart the  service'' = Some [''restart the  service'']" by blast
  moreover from chunk_text_short_single[of "''a b c''" 2 "-5" "''a b''"] h2
  have "chunk_text 2 (-5) ''a b'' = Some [''a b'']" by blast
  ultimately show ?thesis using h2 by blast
qed

lemma window_slice:
  assumes "(s, e) \<in> set (window_bounds cs ov (int (length xs)) 0)" and "0 < cs"
  shows "py_slice xs s e = take (nat e - nat s) (drop (nat s) xs) \<and> nat s < nat e \<and> nat e \<le> length xs"
proof -
  from window_bounds_mem[OF assms(1)] have b: "0 \<le> s" "s < int (length xs)" "e = min (s + cs) (int (length xs))"
    by auto
  with assms(2) have le: "s < e" "e \<le> int (length xs)" by auto
  with b have "py_slice xs s e = take (nat (e - s)) (drop (nat s) xs)"
    by (intro py_slice_nonneg) auto
  moreover have "nat (e - s) = nat e - nat s" using b le by linarith
  ultimately show ?thesis using b le by auto
qed

lemma chunk_overlap_general:
  assumes ov0: "0 \<le> ov" and ovcs: "ov < cs" and long: "cs < int (length (split_ws text))"
    and ch: "chunk_text cs ov text = Some chunks" and i: "Suc i < length chunks"
  shows "nat ov < length (split_ws (chunks ! Suc i)) \<and>
         length (split_ws (chunks ! i)) = nat cs \<and>
         drop (nat cs - nat ov) (split_ws (chunks ! i)) = take (nat ov) (split_ws (chunks ! Suc i))"
proof -
  let ?words = "split_ws text"
  let ?n = "int (length ?words)"
  let ?ws = "window_bounds cs ov ?n 0"
  have chunks: "chunks = map (\<lambda>(s, e). join_sp (py_slice ?words s e)) ?ws"
    using chunk_text_windows[OF ovcs long] ch by simp
  then have len: "length chunks = length ?ws" by simp
  with i have i': "Suc i < length ?ws" by simp
  from window_bounds_step[OF i'] obtain s where
    s: "0 \<le> s" "s + cs < ?n" "?ws ! i = (s, s + cs)"
       "?ws ! Suc i = (s + cs - ov, min (s + cs - ov + cs) ?n)" by blast
  let ?s' = "s + cs - ov"
  let ?e' = "min (?s' + cs) ?n"
  have a: "split_ws (chunks ! i) = py_slice ?words s (s + cs)"
    using chunks i' s(3) by (simp add: split_ws_chunk)
  have b: "split_ws (chunks ! Suc i) = py_slice ?words ?s' ?e'"
    using chunks i' s(4) by (simp add: split_ws_chunk)
  have a': "py_slice ?words s (s + cs) = take (nat cs) (drop (nat s) ?words)"
    using py_slice_nonneg[of s "s + cs" ?words] s ov0 ovcs by simp
  have b': "py_slice ?words ?s' ?e' = take (nat (?e' - ?s')) (drop (nat ?s') ?words)"
    using s ov0 ovcs by (intro py_slice_nonneg) auto
  have gt: "nat ov < nat (?e' - ?s')" using s ov0 ovcs by auto
  have lenb: "length (py_slice ?words ?s' ?e') = nat (?e' - ?s')"
    using s ov0 ovcs by (intro length_py_slice) auto
  have lena: "length (py_slice ?words s (s + cs)) = nat cs"
    using length_py_slice[of s "s + cs" ?words] s ov0 ovcs by simp
  have idx: "nat s + (nat cs - nat ov) = nat ?s'" using s ov0 ovcs by linarith
  have "drop (nat cs - nat ov) (take (nat cs) (drop (nat s) ?words)) =
        take (nat cs - (nat cs - nat ov)) (drop (nat ?s') ?words)"
    by (simp add: drop_take idx add.commute)
  also have "nat cs - (nat cs - nat ov) = nat ov" using ov0 ovcs by linarith
  finally have l: "drop (nat cs - nat ov) (take (nat cs) (drop (nat s) ?words)) =
      take (nat ov) (drop (nat ?s') ?words)" .
  have r: "take (nat ov) (take (nat (?e' - ?s')) (drop (nat ?s') ?words)) =
      take (nat ov) (drop (nat ?s') ?words)"
  proof -
    have "min (nat ov) (nat (?e' - ?s')) = nat ov" using gt by linarith
    then show ?thesis by (simp only: take_take)
  qed
  have c1: "nat ov < length (split_ws (chunks ! Suc i))"
    unfolding b lenb by (rule gt)
  have c2: "length (split_ws (chunks ! i)) = nat cs"
    unfolding a by (rule lena)
  have c3: "drop (nat cs - nat ov) (split_ws (chunks ! i)) = take (nat ov) (split_ws (chunks ! Suc i))"
    unfolding a b a' b' l r by (rule refl)
  from c1 c2 c3 show ?thesis by blast
qed






text \<open>
  Claim C10.  With \<open>0 \<le> overlap < chunk_size\<close> the chunker returns chunks whose words are
  windows \<open>[s, e)\<close> of the word sequence of the text; every word index lies in one of the
  windows; and when there is more than one chunk, the final chunk has at least
  \<open>overlap + 1\<close> words.
\<close>

theorem chunk_text_covers:
  assumes "0 \<le> ov" and "ov < cs"
  shows "\<exists>chunks ws. chunk_text cs ov text = Some chunks \<and>
     map split_ws chunks = map (\<lambda>(s, e). take (e - s) (drop s (split_ws text))) ws \<and>
     (\<forall>(s, e) \<in> set ws. s \<le> e \<and> e \<le> length (split_ws text)) \<and>
     (\<forall>j < length (split_ws text). \<exists>(s, e) \<in> set ws. s \<le> j \<and> j < e) \<and>
     (1 < length chunks \<longrightarrow> nat ov + 1 \<le> length (split_ws (last chunks)))"
proof (cases "cs < int (length (split_ws text))")
  case False
  let ?ws = "[(0 :: nat, length (split_ws text))]"
  have ch: "chunk_text cs ov text = Some [text]" using False by (simp add: chunk_text_def Let_def)
  have m: "map split_ws [text] = map (\<lambda>(s, e). take (e - s) (drop s (split_ws text))) ?ws"
    by simp
  have b: "\<forall>(s, e) \<in> set ?ws. s \<le> e \<and> e \<le> length (split_ws text)" by simp
  have c: "\<forall>j < length (split_ws text). \<exists>(s, e) \<in> set ?ws. s \<le> j \<and> j < e" by simp
  have l: "1 < length [text] \<longrightarrow> nat ov + 1 \<le> length (split_ws (last [text]))" by simp
  show ?thesis
    by (rule exI[of _ "[text]"], rule exI[of _ ?ws]) (intro conjI ch m b c l)
next
  case True
  let ?words = "split_ws text"
  let ?n = "int (length ?words)"
  let ?wb = "window_bounds cs ov ?n 0"
  let ?ws = "map (\<lambda>(s, e). (nat s, nat e)) ?wb"
  let ?chunks = "map (\<lambda>(s, e). join_sp (py_slice ?words s e)) ?wb"
  have cs0: "0 < cs" using assms by simp
  have ch: "chunk_text cs ov text = Some ?chunks" by (rule chunk_text_windows[OF assms(2) True])
  have sl: "\<And>s e. (s, e) \<in> set ?wb \<Longrightarrow>
       py_slice ?words s e = take (nat e - nat s) (drop (nat s) ?words) \<and> nat s < nat e \<and> nat e \<le> length ?words"
    using window_slice[OF _ cs0] by blast
  have m: "map split_ws ?chunks = map (\<lambda>(s, e). take (e - s) (drop s ?words)) ?ws"
  proof -
    have "map split_ws ?chunks = map (\<lambda>(s, e). py_slice ?words s e) ?wb"
      by (simp add: split_ws_chunk case_prod_unfold)
    also have "\<dots> = map (\<lambda>(s, e). take (nat e - nat s) (drop (nat s) ?words)) ?wb"
      using sl by (intro map_cong) auto
    also have "\<dots> = map (\<lambda>(s, e). take (e - s) (drop s ?words)) ?ws"
      by (simp add: case_prod_unfold comp_def)
    finally show ?thesis .
  qed
  have b: "\<forall>(s, e) \<in> set ?ws. s \<le> e \<and> e \<le> length ?words"
  proof (intro ballI)
    fix p assume "p \<in> set ?ws"
    then obtain s e where "(s, e) \<in> set ?wb" "p = (nat s, nat e)" by auto
    with sl[of s e] have lt: "nat s < nat e" and le: "nat e \<le> length ?words"
      and p: "p = (nat s, nat e)" by blast+
    from lt have "nat s \<le> nat e" by (rule less_imp_le)
    with le show "case p of (s, e) \<Rightarrow> s \<le> e \<and> e \<le> length ?words"
      unfolding p by (simp only: prod.case simp_thms)
  qed
  have c: "\<forall>j < length ?words. \<exists>(s, e) \<in> set ?ws. s \<le> j \<and> j < e"
  proof (intro allI impI)
    fix j assume "j < length ?words"
    then have "0 \<le> int j" "int j < ?n" by simp_all
    from window_bounds_cover[OF assms this] obtain s e where
      se: "(s, e) \<in> set ?wb" "s \<le> int j" "int j < e" by blast
    from se(1) have "(nat s, nat e) \<in> set ?ws" by force
    moreover have "nat s \<le> j \<and> j < nat e" using se by linarith
    ultimately show "\<exists>(s, e) \<in> set ?ws. s \<le> j \<and> j < e" by blast
  qed
  have l: "1 < length ?chunks \<longrightarrow> nat ov + 1 \<le> length (split_ws (last ?chunks))"
  proof
    assume g: "1 < length ?chunks"
    define k where "k = length ?chunks - 2"
    from g have k: "Suc k < length ?chunks" and k': "Suc k = length ?chunks - 1"
      unfolding k_def by linarith+
    from chunk_overlap_general[OF assms True ch k]
    have "nat ov < length (split_ws (?chunks ! Suc k))" by blast
    moreover have "?chunks \<noteq> []" using g by auto
    then have "last ?chunks = ?chunks ! Suc k"
      unfolding k' by (rule last_conv_nth)
    ultimately show "nat ov + 1 \<le> length (split_ws (last ?chunks))" by simp
  qed
  show ?thesis
    by (rule exI[of _ ?chunks], rule exI[of _ ?ws]) (intro conjI ch m b c l)
qed

theorem chunk_text_covers_witness:
  "chunk_text 4 1 ''a b c d e f g h i j'' = Some [''a b c d'', ''d e f g'', ''g h i j''] \<and>
   2 \<le> length (split_ws ''g h i j'')"
proof -
  have t: "chunk_text 4 1 ''a b c d e f g h i j'' = Some [''a b c d'', ''d e f g'', ''g h i j'']"
    by (simp add: chunk_text_def split_ws_def is_space_def chunk_loop.simps py_slice_def
        slice_bound_def)
  have h: "(0::int) \<le> 1" "(1::int) < 4" by simp_all
  from chunk_text_covers[OF h, of "''a b c d e f g h i j''"] obtain chunks where
    c: "chunk_text 4 1 ''a b c d e f g h i j'' = Some chunks"
    and l: "1 < length chunks \<longrightarrow> nat 1 + 1 \<le> length (split_ws (last chunks))"
    by blast
  from c t have chunks: "chunks = [''a b c d'', ''d e f g'', ''g h i j'']" by simp
  from l have "2 \<le> length (split_ws ''g h i j'')" unfolding chunks by simp
  with t show ?thesis by blast
qed

lemma chunk_text_total:
  assumes "ov < cs"
  shows "\<exists>chunks. chunk_text cs ov text = Some chunks \<and> (split_ws text \<noteq> [] \<longrightarrow> chunks \<noteq> [])"
proof (cases "cs < int (length (split_ws text))")
  case False
  then show ?thesis by (simp add: chunk_text_def Let_def)
next
  case True
  show ?thesis using chunk_text_windows[OF assms True] window_bounds_nonempty[OF _ assms, of 0 "int (length (split_ws text))"]
    by auto
qed

text \<open>
  Claim C1.  With \<open>0 < overlap < chunk_size\<close> and a text of more than \<open>chunk_size\<close> words,
  \<open>RunbookIndexer.chunk_text\<close> never returns: after the final window \<open>start\<close> is
  \<open>len(words) - overlap\<close>, below \<open>len(words)\<close>, and the final window is emitted again and
  again.  \<open>EfficientRunbookIndexer.chunk_text\<close> returns on the same input.
\<close>

theorem runbook_chunk_text_never_returns:
  "0 < ov \<Longrightarrow> ov < cs \<Longrightarrow> cs < int (length (split_ws text)) \<Longrightarrow>
   runbook_chunk_text cs ov text = None \<and> (\<exists>chunks. chunk_text cs ov text = Some chunks)"
proof -
  assume a: "0 < ov" "ov < cs" "cs < int (length (split_ws text))"
  then have ne: "text \<noteq> []" by (auto simp: split_ws_def)
  have "runbook_chunk_loop cs ov (split_ws text) 0 [] = None"
  proof (cases "runbook_chunk_loop cs ov (split_ws text) 0 []")
    case (Some y)
    from runbook_loop_diverges_aux[OF this] a show ?thesis by simp
  qed simp
  with a ne have "runbook_chunk_text cs ov text = None" by (simp add: runbook_chunk_text_def Let_def)
  with chunk_text_terminates[OF a(2)] show ?thesis by blast
qed

lemma words_401: "split_ws (join_sp (replicate 401 ''w'')) = replicate 401 ''w''"
  by (rule split_ws_join) (simp add: word_ok_def is_space_def)

theorem runbook_chunk_text_never_returns_witness:
  "runbook_chunk_text 400 50 (join_sp (replicate 401 ''w'')) = None"
proof -
  have h: "(0::int) < 50" "(50::int) < 400" "400 < int (length (split_ws (join_sp (replicate 401 ''w''))))"
    by (simp_all add: words_401)
  from runbook_chunk_text_never_returns[OF h] show ?thesis by simp
qed

section \<open>Properties of the indexing pipeline\<close>

lemma fold_upd_map_of:
  "fold (\<lambda>(i, r) c. c(i \<mapsto> r)) kvs c = c ++ map_of (rev kvs)"
proof (induction kvs arbitrary: c)
  case Nil
  then show ?case by simp
next
  case (Cons kv kvs)
  obtain i r where kv: "kv = (i, r)" by (cases kv)
  have "fold (\<lambda>(i, r) c. c(i \<mapsto> r)) (kv # kvs) c =
        fold (\<lambda>(i, r) c. c(i \<mapsto> r)) kvs (c(i \<mapsto> r))"
    unfolding kv by simp
  also have "\<dots> = c(i \<mapsto> r) ++ map_of (rev kvs)" by (rule Cons)
  also have "\<dots> = c ++ map_of (rev kvs @ [(i, r)])"
    by (rule ext) (simp add: map_add_def split: option.splits)
  also have "rev kvs @ [(i, r)] = rev (kv # kvs)" by (simp add: kv)
  finally show ?case .
qed

lemma zip_stored:
  "zip (map cd_id cds) (zip (map encode (map cd_text cds)) (zip (map cd_metadata cds) (map cd_text cds)))
   = map (stored encode) cds"
  by (induction cds) (simp_all add: stored_def)

lemma zip_stored_comp:
  "zip (map cd_id cds) (zip (map (encode \<circ> cd_text) cds) (zip (map cd_metadata cds) (map cd_text cds)))
   = map (stored encode) cds"
  by (induction cds) (simp_all add: stored_def)

lemma embed_and_store_add:
  "embed_and_store encode cds c = c ++ map_of (rev (map (stored encode) cds))"
proof (cases "cds = []")
  case True
  then show ?thesis by (simp add: embed_and_store_def)
next
  case False
  then show ?thesis
    by (simp add: embed_and_store_def collection_add_def Let_def fold_upd_map_of zip_stored
        del: map_map)
qed

lemma map_add_twice: "(c ++ m) ++ m = c ++ (m :: 'a \<rightharpoonup> 'b)"
  by (rule ext) (simp add: map_add_def split: option.splits)

lemma embed_and_store_twice:
  "embed_and_store encode cds (embed_and_store encode cds c) = embed_and_store encode cds c"
  by (simp only: embed_and_store_add map_add_twice)

lemma embed_and_store_dom:
  "dom (embed_and_store encode cds c) = dom c \<union> set (map cd_id cds)"
proof -
  have "fst ` set (map (stored encode) cds) = set (map cd_id cds)"
    by (auto simp: stored_def image_iff)
  then show ?thesis
    by (simp add: embed_and_store_add dom_map_of_conv_image_fst Un_commute del: set_map)
qed

lemma embed_and_store_lookup:
  assumes "distinct (map cd_id cds)" and "cd \<in> set cds"
  shows "embed_and_store encode cds c (cd_id cd) = Some (encode (cd_text cd), cd_metadata cd, cd_text cd)"
proof -
  have "map fst (rev (map (stored encode) cds)) = rev (map cd_id cds)"
    by (simp add: stored_def rev_map comp_def)
  with assms(1) have d: "distinct (map fst (rev (map (stored encode) cds)))" by simp
  have "stored encode cd \<in> set (rev (map (stored encode) cds))" using assms(2) by simp
  then have "(cd_id cd, encode (cd_text cd), cd_metadata cd, cd_text cd)
      \<in> set (rev (map (stored encode) cds))" by (simp add: stored_def)
  from map_of_is_SomeI[OF d this] show ?thesis by (simp add: embed_and_store_add)
qed

lemma process_runbook_ids:
  assumes "process_runbook cs ov rb idx = Some cds"
  shows "map cd_id cds =
     map (\<lambda>i. get_or (rb_id rb) (''unknown_'' @ show_nat idx) @ ''_'' @ show_nat i) [0 ..< length cds]"
proof (cases "length (clean_text (text_content rb)) < 50")
  case True
  with assms show ?thesis by (simp add: process_runbook_def Let_def)
next
  case False
  with assms obtain chunks where
    cds: "cds = map (make_chunk_data rb idx (get_or (rb_title rb) (''Runbook '' @ show_nat idx))
                  (length chunks)) (enumerate 0 chunks)"
    by (auto simp: process_runbook_def Let_def split: option.splits)
  have "map cd_id cds = map (\<lambda>ic. get_or (rb_id rb) (''unknown_'' @ show_nat idx) @ ''_'' @ show_nat (fst ic))
       (enumerate 0 chunks)"
    unfolding cds by (simp add: make_chunk_data_def comp_def)
  also have "\<dots> = map (\<lambda>i. get_or (rb_id rb) (''unknown_'' @ show_nat idx) @ ''_'' @ show_nat i)
       (map fst (enumerate 0 chunks))" by (simp only: map_map comp_def)
  also have "map fst (enumerate 0 chunks) = [0 ..< length chunks]" by simp
  also have "length chunks = length cds" unfolding cds by simp
  finally show ?thesis .
qed

lemma index_batches_add:
  "index_batches encode cs ov rbs bs starts (c, t) = Some (c', t') \<Longrightarrow>
   \<exists>m n. \<forall>c0 t0. index_batches encode cs ov rbs bs starts (c0, t0) = Some (c0 ++ m, t0 + n)"
proof (induction starts arbitrary: c t)
  case Nil
  have "\<forall>c0 t0. index_batches encode cs ov rbs bs [] (c0, t0) = Some (c0 ++ Map.empty, t0 + 0)"
    by simp
  then show ?case by blast
next
  case (Cons s starts)
  from Cons.prems obtain cds where
    p: "process_batch cs ov (take bs (drop s rbs)) (s + 1) = Some cds"
    and r: "index_batches encode cs ov rbs bs starts
              (embed_and_store encode cds c, t + length cds) = Some (c', t')"
    by (auto simp: Let_def split: option.splits)
  from Cons.IH[OF r] obtain m n where
    ih: "\<And>c0 t0. index_batches encode cs ov rbs bs starts (c0, t0) = Some (c0 ++ m, t0 + n)"
    by blast
  let ?m = "map_of (rev (map (stored encode) cds)) ++ m"
  have "\<forall>c0 t0. index_batches encode cs ov rbs bs (s # starts) (c0, t0) =
      Some (c0 ++ ?m, t0 + (length cds + n))"
    using p by (simp add: Let_def ih embed_and_store_add add.assoc)
  then show ?case by blast
qed

lemma index_runbooks_twice:
  assumes "index_runbooks encode cs ov rbs bs c = Some (Inr (c1, n1))"
  shows "index_runbooks encode cs ov rbs bs c1 = Some (Inr (c1, n1))"
proof -
  from assms have bs: "bs \<noteq> 0"
    and r: "index_batches encode cs ov rbs bs (batch_starts (length rbs) bs) (c, 0) = Some (c1, n1)"
    by (auto simp: index_runbooks_def split: if_splits)
  from index_batches_add[OF r] obtain m n where
    mn: "\<And>c0 t0. index_batches encode cs ov rbs bs (batch_starts (length rbs) bs) (c0, t0)
          = Some (c0 ++ m, t0 + n)" by blast
  from r mn[of c 0] have c1: "c1 = c ++ m" "n1 = n" by simp_all
  have "index_batches encode cs ov rbs bs (batch_starts (length rbs) bs) (c1, 0) = Some (c1, n1)"
    using mn[of c1 0] c1 by (simp add: map_add_twice)
  with bs show ?thesis by (simp add: index_runbooks_def)
qed

lemma add_batches_add:
  "\<exists>m. \<forall>c. add_batches encode cds i c = c ++ m"
proof (induction "length cds - i" arbitrary: i rule: less_induct)
  case less
  show ?case
  proof (cases "i < length cds")
    case False
    then have "\<forall>c. add_batches encode cds i c = c ++ Map.empty"
      by (subst add_batches.simps) simp
    then show ?thesis by blast
  next
    case True
    then have "length cds - (i + 1000) < length cds - i" by simp
    from less[OF this] obtain m where m: "\<And>c. add_batches encode cds (i + 1000) c = c ++ m" by blast
    let ?batch = "take (min (i + 1000) (length cds) - i) (drop i cds)"
    have "\<forall>c. add_batches encode cds i c = c ++ (map_of (rev (map (stored encode) ?batch)) ++ m)"
    proof
      fix c
      have "collection_add (map cd_id ?batch) (map (encode \<circ> cd_text) ?batch)
              (map cd_metadata ?batch) (map cd_text ?batch) c =
            c ++ map_of (rev (map (stored encode) ?batch))"
        by (simp only: collection_add_def fold_upd_map_of zip_stored_comp)
      then show "add_batches encode cds i c = c ++ (map_of (rev (map (stored encode) ?batch)) ++ m)"
        using True by (subst add_batches.simps) (simp add: Let_def m)
    qed
    then show ?thesis by blast
  qed
qed

lemma store_chunks_twice:
  "store_chunks delete_raises encode cds (store_chunks delete_raises encode cds c) =
   store_chunks delete_raises encode cds c"
proof -
  from add_batches_add[of encode cds 0] obtain m where
    m: "\<And>c. add_batches encode cds 0 c = c ++ m" by blast
  show ?thesis by (simp add: store_chunks_def m map_add_twice)
qed

lemma long_ids: "map cd_id (the (process_runbook 5 1 long_runbook 1)) = [''A_0'', ''A_1'']"
  by code_simp

lemma short_ids: "map cd_id (the (process_runbook 5 1 short_runbook 1)) = [''A_0'']"
  by code_simp

text \<open>
  Claim C2, as stated, fails: storing the chunks of a runbook deletes nothing.  After the
  two chunks \<open>A_0\<close>, \<open>A_1\<close> of runbook \<open>A\<close> are stored and the runbook, now one chunk long, is
  stored again, the record \<open>A_1\<close> of runbook \<open>A\<close> is still in the index.
\<close>

theorem reindex_keeps_stale_record:
  "map cd_id (the (process_runbook 5 1 long_runbook 1)) = [''A_0'', ''A_1''] \<and>
   map cd_id (the (process_runbook 5 1 short_runbook 1)) = [''A_0''] \<and>
   map_option (md_runbook_id \<circ> fst \<circ> snd)
     (embed_and_store length_encoder (the (process_runbook 5 1 short_runbook 1))
        (embed_and_store length_encoder (the (process_runbook 5 1 long_runbook 1)) Map.empty)
        ''A_1'') = Some ''A''"
  by code_simp

text \<open>
  Claim C2, amended.  Storing the same chunks a second time leaves the index as it was
  after the first time, so with the same records and ids; the ids of the index after
  storing are the ids before and the ids stored (nothing is deleted); a record stored under
  an id replaces the one that was there; the ids of the chunks of a runbook are its id,
  an underscore and the chunk index; indexing the same runbooks a second time gives the
  same index and the same count; and the storing step of \<open>RunbookIndexer.index_runbooks\<close>,
  run twice on the same chunks, gives the same index, whether the call of \<open>delete\<close>
  clears the collection or raises.
\<close>

theorem reindex_unchanged_same_records:
  "embed_and_store encode cds (embed_and_store encode cds c) = embed_and_store encode cds c \<and>
   dom (embed_and_store encode cds c) = dom c \<union> set (map cd_id cds) \<and>
   (distinct (map cd_id cds) \<longrightarrow>
      (\<forall>cd \<in> set cds. embed_and_store encode cds c (cd_id cd) =
          Some (encode (cd_text cd), cd_metadata cd, cd_text cd))) \<and>
   (process_runbook chunk_size overlap runbook idx = Some chunk_datas \<longrightarrow>
      map cd_id chunk_datas =
        map (\<lambda>i. get_or (rb_id runbook) (''unknown_'' @ show_nat idx) @ ''_'' @ show_nat i)
          [0 ..< length chunk_datas]) \<and>
   (index_runbooks encode chunk_size overlap runbooks batch_size c = Some (Inr (c1, n1)) \<longrightarrow>
      index_runbooks encode chunk_size overlap runbooks batch_size c1 = Some (Inr (c1, n1))) \<and>
   store_chunks delete_raises encode cds (store_chunks delete_raises encode cds c) =
     store_chunks delete_raises encode cds c"
  using embed_and_store_twice[of encode cds c] embed_and_store_dom[of encode cds c]
    embed_and_store_lookup[of cds _ encode c] process_runbook_ids[of chunk_size overlap runbook idx chunk_datas]
    index_runbooks_twice[of encode chunk_size overlap runbooks batch_size c c1 n1]
    store_chunks_twice[of delete_raises encode cds c]
  by blast

lemma long_chunks_some: "process_runbook 5 1 long_runbook 1 \<noteq> None"
  by code_simp

theorem reindex_unchanged_same_records_witness:
  "index_runbooks length_encoder 5 1 [long_runbook] 10
     (embed_and_store length_encoder (the (process_runbook 5 1 long_runbook 1)) Map.empty) =
   Some (Inr (embed_and_store length_encoder (the (process_runbook 5 1 long_runbook 1)) Map.empty, 2)) \<and>
   dom (embed_and_store length_encoder (the (process_runbook 5 1 long_runbook 1)) Map.empty) =
     {''A_0'', ''A_1''}"
proof -
  from long_chunks_some obtain cds where p: "process_runbook 5 1 long_runbook 1 = Some cds"
    by blast
  then have t: "the (process_runbook 5 1 long_runbook 1) = cds" by simp
  let ?c1 = "embed_and_store length_encoder cds Map.empty"
  have b: "batch_starts (length [long_runbook]) 10 = [0]" by code_simp
  have ids: "map cd_id cds = [''A_0'', ''A_1'']" using long_ids unfolding t .
  then have "length (map cd_id cds) = 2" by simp
  then have n: "length cds = 2" by simp
  have first: "index_runbooks length_encoder 5 1 [long_runbook] 10 Map.empty = Some (Inr (?c1, 2))"
    unfolding index_runbooks_def b using p n by (simp add: Let_def)
  from reindex_unchanged_same_records[of length_encoder cds Map.empty 5 1 _ _ _ "[long_runbook]" 10 ?c1 2]
  have "index_runbooks length_encoder 5 1 [long_runbook] 10 Map.empty = Some (Inr (?c1, 2)) \<longrightarrow>
        index_runbooks length_encoder 5 1 [long_runbook] 10 ?c1 = Some (Inr (?c1, 2))"
    and "dom ?c1 = dom (Map.empty :: nat index) \<union> set (map cd_id cds)"
    by blast+
  with first ids show ?thesis unfolding t by auto
qed

text \<open>
  Claim C5, as stated, fails: the constructor called with chunk size 400 and overlap 400
  returns an indexer that holds this pair.
\<close>

theorem init_accepts_overlap_not_below_chunk_size:
  "\<not> isl (init (None :: nat index option) 400 400) \<and>
   ix_chunk_size (projr (init (None :: nat index option) 400 400)) = 400 \<and>
   ix_overlap (projr (init (None :: nat index option) 400 400)) = 400"
  by (simp add: init_def)

text \<open>
  Claim C5, amended.  The constructor validates nothing: for every chunk size and overlap
  it returns an indexer that holds the two values as given.
\<close>

theorem init_stores_any_pair:
  "\<exists>ix. init existing chunk_size overlap = Inr ix \<and>
        ix_chunk_size ix = chunk_size \<and> ix_overlap ix = overlap"
  by (simp add: init_def)

text \<open>
  With \<open>overlap \<ge> chunk_size\<close> the window of \<open>chunk_text\<close> never advances: on a text of more
  than \<open>chunk_size\<close> words the loop is not left.
\<close>

lemma chunk_loop_stuck_aux:
  assumes "chunk_loop cs ov words start acc = Some r"
  shows "\<not> (cs \<le> ov \<and> start \<le> 0 \<and> cs < int (length words) \<and> 0 < int (length words))"
proof (rule chunk_loop.raw_induct
    [where P = "\<lambda>cs ov words start acc r.
        \<not> (cs \<le> ov \<and> start \<le> 0 \<and> cs < int (length words) \<and> 0 < int (length words))",
      OF _ assms])
  fix f :: "int \<Rightarrow> int \<Rightarrow> string list \<Rightarrow> int \<Rightarrow> string list \<Rightarrow> string list option"
    and cs ov start :: int and words acc r :: "string list"
  assume IH: "\<And>cs ov words start acc r. f cs ov words start acc = Some r \<Longrightarrow>
     \<not> (cs \<le> ov \<and> start \<le> 0 \<and> cs < int (length (words :: string list)) \<and> 0 < int (length words))"
  assume body: "(if start < int (length words)
      then let end = min (start + cs) (int (length words));
               chunks' = acc @ [join_sp (py_slice words start end)]
           in if end = int (length words) then Some chunks'
              else f cs ov words (end - ov) chunks'
      else Some acc) = Some r"
  show "\<not> (cs \<le> ov \<and> start \<le> 0 \<and> cs < int (length words) \<and> 0 < int (length words))"
  proof
    assume a: "cs \<le> ov \<and> start \<le> 0 \<and> cs < int (length words) \<and> 0 < int (length words)"
    then have s: "start < int (length words)" by linarith
    from a have e: "min (start + cs) (int (length words)) = start + cs"
      and ne: "start + cs \<noteq> int (length words)" by linarith+
    from body s e ne have "f cs ov words (start + cs - ov)
        (acc @ [join_sp (py_slice words start (start + cs))]) = Some r"
      by (simp only: Let_def if_True if_False)
    from IH[OF this] a show False by linarith
  qed
qed

lemma chunk_text_stuck:
  assumes "cs \<le> ov" and "cs < int (length (split_ws text))" and "split_ws text \<noteq> []"
  shows "chunk_text cs ov text = None"
proof (cases "chunk_loop cs ov (split_ws text) 0 []")
  case None
  with assms show ?thesis by (simp add: chunk_text_def Let_def)
next
  case (Some r)
  from chunk_loop_stuck_aux[OF this] assms show ?thesis by simp
qed

section \<open>Properties of the query engines\<close>

text \<open>
  Claim C8, as stated, fails: the query \<open>a b\<close> has two characters that are not white space,
  and it is sent to the vector index.
\<close>

theorem process_query_reaches_index:
  "length (filter (Not \<circ> is_space) ''a b'') < 3 \<and>
   snd (process_query empty_store_env \<lparr>runbooks_data = [], use_vector_search = True\<rparr> ''a b'' False)
     = [VectorQuery ''a b'' 5, Analyze ''a b'', Synthesize ''a b'']"
  by (simp add: process_query_def search_chunks_def empty_store_env_def str_strip_def is_space_def
      meaningful_results_def Let_def)

text \<open>
  Claim C8, amended.  A query whose length after \<open>strip()\<close> is below 3 is answered by both
  engines with the canned response, zero chunks found, and no call to a collaborator.
\<close>

theorem short_query_rejected:
  assumes "length (str_strip query) < 3"
  shows "process_query env sys query create_if_missing =
           (\<lparr>rs_answer = ''Please ask a more specific question.'', rs_query = query,
             rs_chunks_found = 0, rs_sources = None, rs_suggest_creation = None,
             rs_can_create_runbook = None, rs_runbook_created = None,
             rs_generated_runbook = None\<rparr>, []) \<and>
         rp_process_query renv query top_k =
           (\<lparr>rp_answer = ''Please provide a more specific question.'', rp_sources = [],
             rp_query = query, rp_chunks_found = 0, rp_chunks_used = None\<rparr>, [])"
  using assms by (simp add: process_query_def rp_process_query_def)

theorem short_query_rejected_witness:
  "rs_answer (fst (process_query unavailable_store_env
       \<lparr>runbooks_data = [disk_runbook], use_vector_search = True\<rparr> ''ok'' False))
     = ''Please ask a more specific question.'' \<and>
   rs_chunks_found (fst (process_query unavailable_store_env
       \<lparr>runbooks_data = [disk_runbook], use_vector_search = True\<rparr> ''ok'' False)) = 0 \<and>
   snd (process_query unavailable_store_env
       \<lparr>runbooks_data = [disk_runbook], use_vector_search = True\<rparr> ''ok'' False) = []"
proof -
  have h: "length (str_strip ''ok'') < 3" by (simp add: str_strip_def is_space_def)
  from short_query_rejected[OF h] show ?thesis by simp
qed

lemma meaningful_nil_iff:
  "(results = [] \<or> length (meaningful_results results) = 0) = (meaningful_results results = [])"
  by (auto simp: meaningful_results_def)

lemma meaningful_results_Nil: "meaningful_results [] = []"
  by (simp add: meaningful_results_def)

text \<open>
  \<open>SimpleRAGSystem.process_query\<close>, for a query that is not rejected as too short: the
  response is built from the results whose relevance score exceeds 0.6.
\<close>

lemma process_query_threshold:
  assumes "3 \<le> length (str_strip query)"
  shows "meaningful_results results = filter (\<lambda>r. 0.6 < relevance_score r) results \<and>
     length (meaningful_results
        (map (\<lambda>s. r\<lparr>relevance_score := s\<rparr>) [0.9, 0.7, 0.5, 0.3])) = 2 \<and>
     (meaningful_results (fst (search_chunks env sys query 5)) = [] \<longrightarrow>
        rs_suggest_creation (fst (process_query env sys query create_if_missing)) = Some True \<and>
        rs_sources (fst (process_query env sys query create_if_missing)) = Some [] \<and>
        rs_answer (fst (process_query env sys query create_if_missing)) = generate_answer env query []) \<and>
     (meaningful_results (fst (search_chunks env sys query 5)) \<noteq> [] \<longrightarrow>
        rs_suggest_creation (fst (process_query env sys query create_if_missing)) = Some False \<and>
        rs_sources (fst (process_query env sys query create_if_missing)) =
          Some (map result_source (meaningful_results (fst (search_chunks env sys query 5)))) \<and>
        rs_chunks_found (fst (process_query env sys query create_if_missing)) =
          length (meaningful_results (fst (search_chunks env sys query 5))) \<and>
        rs_answer (fst (process_query env sys query create_if_missing)) =
          generate_answer env query (meaningful_results (fst (search_chunks env sys query 5))))"
proof -
  from assms have q: "\<not> (query = [] \<or> length (str_strip query) < 3)"
    by (auto simp: str_strip_def)
  let ?results = "fst (search_chunks env sys query 5)"
  have a: "meaningful_results results = filter (\<lambda>r. 0.6 < relevance_score r) results"
    by (simp add: meaningful_results_def)
  have b: "length (meaningful_results
        (map (\<lambda>s. r\<lparr>relevance_score := s\<rparr>) [0.9, 0.7, 0.5, 0.3])) = 2"
    by (simp add: meaningful_results_def)
  have c: "meaningful_results ?results = [] \<longrightarrow>
        rs_suggest_creation (fst (process_query env sys query create_if_missing)) = Some True \<and>
        rs_sources (fst (process_query env sys query create_if_missing)) = Some [] \<and>
        rs_answer (fst (process_query env sys query create_if_missing)) = generate_answer env query []"
    using q by (simp add: process_query_def Let_def meaningful_nil_iff)
  have d: "meaningful_results ?results \<noteq> [] \<longrightarrow>
        rs_suggest_creation (fst (process_query env sys query create_if_missing)) = Some False \<and>
        rs_sources (fst (process_query env sys query create_if_missing)) =
          Some (map result_source (meaningful_results ?results)) \<and>
        rs_chunks_found (fst (process_query env sys query create_if_missing)) =
          length (meaningful_results ?results) \<and>
        rs_answer (fst (process_query env sys query create_if_missing)) =
          generate_answer env query (meaningful_results ?results)"
    using q by (simp add: process_query_def Let_def meaningful_nil_iff meaningful_results_Nil)
  from a b c d show ?thesis by (intro conjI)
qed

lemma rp_process_query_all_chunks:
  assumes "3 \<le> length (str_strip query)" and "rp_query_index renv query top_k = Inr hits"
    and "hits \<noteq> []"
  shows "rp_chunks_used (fst (rp_process_query renv query top_k)) =
           Some (map relevant_chunk (enumerate 0 hits)) \<and>
         rp_chunks_found (fst (rp_process_query renv query top_k)) = length hits \<and>
         rp_sources (fst (rp_process_query renv query top_k)) =
           extract_source_urls (map relevant_chunk (enumerate 0 hits)) \<and>
         rp_answer (fst (rp_process_query renv query top_k)) =
           rp_generate_answer renv query
             (format_context_for_llm (map relevant_chunk (enumerate 0 hits)))"
proof -
  from assms(1) have q: "\<not> (query = [] \<or> length (str_strip query) < 3)"
    by (auto simp: str_strip_def)
  from assms(3) have ne: "map relevant_chunk (enumerate 0 hits) \<noteq> []"
    by (cases hits) simp_all
  show ?thesis using q ne assms(2) by (simp add: rp_process_query_def Let_def)
qed

text \<open>
  Claim C3, as stated, fails for \<open>RAGProcessor.process_query\<close>: the only chunk retrieved has
  the relevance score 0.1, below 0.6, and the response reports one chunk found and lists
  it among the chunks used and the sources.
\<close>

theorem rag_processor_returns_low_relevance:
  "map src_relevance (rp_sources (fst (rp_process_query low_relevance_env ''jenkins build'' 5)))
     = [1 / 10] \<and>
   rp_chunks_found (fst (rp_process_query low_relevance_env ''jenkins build'' 5)) = 1 \<and>
   map ci_relevance_score
     (the (rp_chunks_used (fst (rp_process_query low_relevance_env ''jenkins build'' 5)))) = [1 / 10]"
  by (simp add: rp_process_query_def low_relevance_env_def str_strip_def is_space_def
      relevant_chunk_def extract_source_urls_def Let_def enumerate_eq_zip)

text \<open>
  Claim C3, amended.  For a query that is not rejected as too short,
  \<open>SimpleRAGSystem.process_query\<close> keeps exactly the results whose relevance score exceeds 0.6,
  in order (of the scores 0.9, 0.7, 0.5, 0.3 two pass); when no result passes, its response
  has \<open>suggest_creation\<close> true, no sources, and an answer synthesised from no chunks;
  otherwise the sources and the answer are those of the results that pass.
  \<open>RAGProcessor.process_query\<close> applies no threshold: whenever the index returns chunks, all of
  them are the chunks used, counted as found, passed to the answer and listed as sources.
\<close>

theorem relevance_threshold_by_engine:
  assumes "3 \<le> length (str_strip query)"
  shows "meaningful_results results = filter (\<lambda>r. 0.6 < relevance_score r) results \<and>
     length (meaningful_results
        (map (\<lambda>s. r\<lparr>relevance_score := s\<rparr>) [0.9, 0.7, 0.5, 0.3])) = 2 \<and>
     (meaningful_results (fst (search_chunks env sys query 5)) = [] \<longrightarrow>
        rs_suggest_creation (fst (process_query env sys query create_if_missing)) = Some True \<and>
        rs_sources (fst (process_query env sys query create_if_missing)) = Some [] \<and>
        rs_answer (fst (process_query env sys query create_if_missing)) = generate_answer env query []) \<and>
     (meaningful_results (fst (search_chunks env sys query 5)) \<noteq> [] \<longrightarrow>
        rs_suggest_creation (fst (process_query env sys query create_if_missing)) = Some False \<and>
        rs_sources (fst (process_query env sys query create_if_missing)) =
          Some (map result_source (meaningful_results (fst (search_chunks env sys query 5)))) \<and>
        rs_chunks_found (fst (process_query env sys query create_if_missing)) =
          length (meaningful_results (fst (search_chunks env sys query 5))) \<and>
        rs_answer (fst (process_query env sys query create_if_missing)) =
          generate_answer env query (meaningful_results (fst (search_chunks env sys query 5)))) \<and>
     (rp_query_index renv query top_k = Inr hits \<and> hits \<noteq> [] \<longrightarrow>
        rp_chunks_used (fst (rp_process_query renv query top_k)) =
          Some (map relevant_chunk (enumerate 0 hits)) \<and>
        rp_chunks_found (fst (rp_process_query renv query top_k)) = length hits \<and>
        rp_sources (fst (rp_process_query renv query top_k)) =
          extract_source_urls (map relevant_chunk (enumerate 0 hits)) \<and>
        rp_answer (fst (rp_process_query renv query top_k)) =
          rp_generate_answer renv query
            (format_context_for_llm (map relevant_chunk (enumerate 0 hits))))"
  using process_query_threshold[OF assms, of results r env sys create_if_missing]
    rp_process_query_all_chunks[OF assms, of renv top_k hits]
  by blast

theorem relevance_threshold_by_engine_witness:
  "rs_chunks_found (fst (process_query scored_store_env
      \<lparr>runbooks_data = [], use_vector_search = True\<rparr> ''jenkins build'' False)) = 2 \<and>
   rs_suggest_creation (fst (process_query scored_store_env
      \<lparr>runbooks_data = [], use_vector_search = True\<rparr> ''jenkins build'' False)) = Some False \<and>
   rs_suggest_creation (fst (process_query empty_store_env
      \<lparr>runbooks_data = [], use_vector_search = True\<rparr> ''jenkins build'' False)) = Some True \<and>
   rs_sources (fst (process_query empty_store_env
      \<lparr>runbooks_data = [], use_vector_search = True\<rparr> ''jenkins build'' False)) = Some [] \<and>
   rp_chunks_found (fst (rp_process_query low_relevance_env ''jenkins build'' 5)) = 1"
proof -
  let ?sys = "\<lparr>runbooks_data = [], use_vector_search = True\<rparr>"
  have h: "3 \<le> length (str_strip ''jenkins build'')" by (simp add: str_strip_def is_space_def)
  have m: "length (meaningful_results (fst (search_chunks scored_store_env ?sys ''jenkins build'' 5))) = 2"
    by (simp add: search_chunks_def scored_store_env_def vector_result_def meaningful_results_def)
  then have ne: "meaningful_results (fst (search_chunks scored_store_env ?sys ''jenkins build'' 5)) \<noteq> []"
    by auto
  have e: "meaningful_results (fst (search_chunks empty_store_env ?sys ''jenkins build'' 5)) = []"
    by (simp add: search_chunks_def empty_store_env_def meaningful_results_def)
  obtain hit where hit: "rp_query_index low_relevance_env ''jenkins build'' 5 = Inr [hit]"
    by (simp add: low_relevance_env_def)
  from relevance_threshold_by_engine[OF h, of _ _ scored_store_env ?sys False] ne m
  have "rs_chunks_found (fst (process_query scored_store_env ?sys ''jenkins build'' False)) = 2"
    and "rs_suggest_creation (fst (process_query scored_store_env ?sys ''jenkins build'' False)) = Some False"
    by simp_all
  moreover from relevance_threshold_by_engine[OF h, of _ _ empty_store_env ?sys False] e
  have "rs_suggest_creation (fst (process_query empty_store_env ?sys ''jenkins build'' False)) = Some True"
    and "rs_sources (fst (process_query empty_store_env ?sys ''jenkins build'' False)) = Some []"
    by simp_all
  moreover from relevance_threshold_by_engine[OF h, of _ _ _ _ _ low_relevance_env 5 "[hit]"] hit
  have "rp_chunks_found (fst (rp_process_query low_relevance_env ''jenkins build'' 5)) = 1"
    by simp
  ultimately show ?thesis by (intro conjI)
qed

lemma context_parts_bodies:
  "filter (Not \<circ> is_header) (context_parts chunks seen) =
   map (\<lambda>c. Body (chunk_runbook c) (ci_content c)) chunks"
  by (induction chunks arbitrary: seen) (simp_all add: Let_def chunk_runbook_def)

lemma context_parts_header_ids:
  "set (map part_runbook (filter is_header (context_parts chunks seen))) =
     chunk_runbook ` set chunks - seen \<and>
   distinct (map part_runbook (filter is_header (context_parts chunks seen)))"
proof (induction chunks arbitrary: seen)
  case Nil
  then show ?case by simp
next
  case (Cons c chunks)
  show ?case
  proof (cases "chunk_runbook c \<in> seen")
    case True
    with Cons[of seen] show ?thesis by (auto simp: Let_def chunk_runbook_def)
  next
    case False
    with Cons[of "insert (chunk_runbook c) seen"] show ?thesis
      by (auto simp: Let_def chunk_runbook_def)
  qed
qed

lemma context_parts_header_of_chunk:
  "p \<in> set (context_parts chunks seen) \<Longrightarrow> is_header p \<Longrightarrow>
   \<exists>c \<in> set chunks. p = Header (chunk_runbook c) (md_runbook_title (ci_metadata c))
                              (md_runbook_url (ci_metadata c))"
proof (induction chunks arbitrary: seen)
  case Nil
  then show ?case by simp
next
  case (Cons c chunks)
  show ?case
  proof (cases "chunk_runbook c \<in> seen")
    case True
    with Cons.prems have "p \<in> set (context_parts chunks seen)"
      by (auto simp: Let_def chunk_runbook_def)
    from Cons.IH[OF this Cons.prems(2)] show ?thesis by auto
  next
    case False
    with Cons.prems have "p = Header (chunk_runbook c) (md_runbook_title (ci_metadata c))
                              (md_runbook_url (ci_metadata c)) \<or>
        p \<in> set (context_parts chunks (insert (chunk_runbook c) seen))"
      by (auto simp: Let_def chunk_runbook_def)
    then show ?thesis
    proof
      assume "p \<in> set (context_parts chunks (insert (chunk_runbook c) seen))"
      from Cons.IH[OF this Cons.prems(2)] show ?thesis by auto
    qed simp
  qed
qed

lemma context_parts_body_below_header:
  "i < length (context_parts chunks seen) \<Longrightarrow> \<not> is_header (context_parts chunks seen ! i) \<Longrightarrow>
   part_runbook (context_parts chunks seen ! i) \<in> seen \<or>
   (\<exists>j < i. is_header (context_parts chunks seen ! j) \<and>
       part_runbook (context_parts chunks seen ! j) = part_runbook (context_parts chunks seen ! i))"
proof (induction chunks arbitrary: seen i)
  case Nil
  then show ?case by simp
next
  case (Cons c chunks)
  let ?r = "chunk_runbook c"
  show ?case
  proof (cases "?r \<in> seen")
    case True
    then have unf: "context_parts (c # chunks) seen = Body ?r (ci_content c) # context_parts chunks seen"
      by (simp add: Let_def chunk_runbook_def)
    show ?thesis
    proof (cases i)
      case 0
      with unf True show ?thesis by simp
    next
      case (Suc k)
      with Cons.prems unf have k: "k < length (context_parts chunks seen)"
        "\<not> is_header (context_parts chunks seen ! k)" by simp_all
      from Cons.IH[OF k] show ?thesis
      proof
        assume "part_runbook (context_parts chunks seen ! k) \<in> seen"
        with unf Suc show ?thesis by simp
      next
        assume "\<exists>j<k. is_header (context_parts chunks seen ! j) \<and>
           part_runbook (context_parts chunks seen ! j) = part_runbook (context_parts chunks seen ! k)"
        then obtain j where "j < k" "is_header (context_parts chunks seen ! j)"
          "part_runbook (context_parts chunks seen ! j) = part_runbook (context_parts chunks seen ! k)"
          by blast
        with unf Suc have "Suc j < i \<and> is_header (context_parts (c # chunks) seen ! Suc j) \<and>
           part_runbook (context_parts (c # chunks) seen ! Suc j) =
           part_runbook (context_parts (c # chunks) seen ! i)" by simp
        then show ?thesis by blast
      qed
    qed
  next
    case False
    let ?rest = "context_parts chunks (insert ?r seen)"
    from False have unf: "context_parts (c # chunks) seen =
        Header ?r (md_runbook_title (ci_metadata c)) (md_runbook_url (ci_metadata c))
        # Body ?r (ci_content c) # ?rest"
      by (simp add: Let_def chunk_runbook_def)
    show ?thesis
    proof (cases i)
      case 0
      with Cons.prems unf show ?thesis by simp
    next
      case (Suc k)
      show ?thesis
      proof (cases k)
        case 0
        with Suc unf have "0 < i \<and> is_header (context_parts (c # chunks) seen ! 0) \<and>
           part_runbook (context_parts (c # chunks) seen ! 0) =
           part_runbook (context_parts (c # chunks) seen ! i)" by simp
        then show ?thesis by blast
      next
        case (Suc m)
        with \<open>i = Suc k\<close> Cons.prems unf have m: "m < length ?rest" "\<not> is_header (?rest ! m)"
          by simp_all
        have i: "context_parts (c # chunks) seen ! i = ?rest ! m"
          using unf Suc \<open>i = Suc k\<close> by simp
        from Cons.IH[OF m] show ?thesis
        proof
          assume "part_runbook (?rest ! m) \<in> insert ?r seen"
          then show ?thesis
          proof
            assume "part_runbook (?rest ! m) = ?r"
            with i unf have "0 < i \<and> is_header (context_parts (c # chunks) seen ! 0) \<and>
               part_runbook (context_parts (c # chunks) seen ! 0) =
               part_runbook (context_parts (c # chunks) seen ! i)"
              using \<open>i = Suc k\<close> by simp
            then show ?thesis by blast
          next
            assume "part_runbook (?rest ! m) \<in> seen"
            with i show ?thesis by simp
          qed
        next
          assume "\<exists>j<m. is_header (?rest ! j) \<and> part_runbook (?rest ! j) = part_runbook (?rest ! m)"
          then obtain j where j: "j < m" "is_header (?rest ! j)"
            "part_runbook (?rest ! j) = part_runbook (?rest ! m)" by blast
          have "Suc (Suc j) < i \<and> is_header (context_parts (c # chunks) seen ! Suc (Suc j)) \<and>
             part_runbook (context_parts (c # chunks) seen ! Suc (Suc j)) =
             part_runbook (context_parts (c # chunks) seen ! i)"
            using j i unf Suc \<open>i = Suc k\<close> by simp
          then show ?thesis by blast
        qed
      qed
    qed
  qed
qed

lemma collect_sources_keys:
  "distinct (map fst sources) \<Longrightarrow>
   distinct (map fst (collect_sources chunks sources)) \<and>
   fst ` set (collect_sources chunks sources) = fst ` set sources \<union> chunk_runbook ` set chunks \<and>
   snd ` set (collect_sources chunks sources) \<subseteq> snd ` set sources \<union> chunk_source ` set chunks"
proof (induction chunks arbitrary: sources)
  case Nil
  then show ?case by simp
next
  case (Cons c chunks)
  let ?r = "chunk_runbook c"
  show ?case
  proof (cases "?r \<in> fst ` set sources")
    case True
    with Cons.IH[OF Cons.prems] show ?thesis
      by (auto simp: Let_def chunk_runbook_def)
  next
    case False
    let ?s = "sources @ [(?r, chunk_source c)]"
    from False Cons.prems have d: "distinct (map fst ?s)" by auto
    have unf: "collect_sources (c # chunks) sources = collect_sources chunks ?s"
      using False by (simp add: Let_def chunk_runbook_def chunk_source_def)
    from Cons.IH[OF d] show ?thesis unfolding unf by auto
  qed
qed

lemma extract_source_urls_sorted:
  "sorted_wrt (\<lambda>a b. src_relevance b \<le> src_relevance a) (extract_source_urls chunks)"
proof -
  have "sorted (map (\<lambda>x. - src_relevance x) (extract_source_urls chunks))"
    unfolding extract_source_urls_def by (rule sorted_sort_key)
  then show ?thesis by (simp add: sorted_map)
qed

lemma extract_source_urls_docs:
  "length (extract_source_urls chunks) = card (chunk_runbook ` set chunks) \<and>
   set (extract_source_urls chunks) \<subseteq> chunk_source ` set chunks"
proof -
  let ?cs = "collect_sources chunks []"
  from collect_sources_keys[of "[]" chunks] have
    d: "distinct (map fst ?cs)" and k: "fst ` set ?cs = chunk_runbook ` set chunks"
    and s: "snd ` set ?cs \<subseteq> chunk_source ` set chunks" by simp_all
  have "length (extract_source_urls chunks) = length (map fst ?cs)"
    by (simp add: extract_source_urls_def)
  also have "\<dots> = card (set (map fst ?cs))" using distinct_card[OF d] by simp
  also have "\<dots> = card (chunk_runbook ` set chunks)" using k by simp
  finally have "length (extract_source_urls chunks) = card (chunk_runbook ` set chunks)" .
  moreover have "set (extract_source_urls chunks) \<subseteq> chunk_source ` set chunks"
    using s by (simp add: extract_source_urls_def)
  ultimately show ?thesis by blast
qed

lemma context_parts_structure:
  "filter (Not \<circ> is_header) (context_parts chunks {}) =
     map (\<lambda>c. Body (chunk_runbook c) (ci_content c)) chunks \<and>
   distinct (map part_runbook (filter is_header (context_parts chunks {}))) \<and>
   set (map part_runbook (filter is_header (context_parts chunks {}))) = chunk_runbook ` set chunks \<and>
   (\<forall>p \<in> set (context_parts chunks {}). is_header p \<longrightarrow>
      (\<exists>c \<in> set chunks. p = Header (chunk_runbook c) (md_runbook_title (ci_metadata c))
                                 (md_runbook_url (ci_metadata c)))) \<and>
   (\<forall>i < length (context_parts chunks {}). \<not> is_header (context_parts chunks {} ! i) \<longrightarrow>
      (\<exists>j < i. is_header (context_parts chunks {} ! j) \<and>
         part_runbook (context_parts chunks {} ! j) = part_runbook (context_parts chunks {} ! i))) \<and>
   format_context_for_llm chunks = join_nl (concat (map render_part (context_parts chunks {}))) \<and>
   sorted_wrt (\<lambda>a b. src_relevance b \<le> src_relevance a) (extract_source_urls chunks) \<and>
   length (extract_source_urls chunks) = card (chunk_runbook ` set chunks) \<and>
   set (extract_source_urls chunks) \<subseteq> chunk_source ` set chunks"
proof (intro conjI)
  show "\<forall>i < length (context_parts chunks {}). \<not> is_header (context_parts chunks {} ! i) \<longrightarrow>
      (\<exists>j < i. is_header (context_parts chunks {} ! j) \<and>
         part_runbook (context_parts chunks {} ! j) = part_runbook (context_parts chunks {} ! i))"
    using context_parts_body_below_header[of _ chunks "{}"] by simp
  show "\<forall>p \<in> set (context_parts chunks {}). is_header p \<longrightarrow>
      (\<exists>c \<in> set chunks. p = Header (chunk_runbook c) (md_runbook_title (ci_metadata c))
                                 (md_runbook_url (ci_metadata c)))"
    using context_parts_header_of_chunk[of _ chunks "{}"] by blast
qed (simp_all add: context_parts_bodies context_parts_header_ids format_context_for_llm_def
      extract_source_urls_sorted extract_source_urls_docs del: set_map)

lemma context_parts_snoc:
  "context_parts (chunks @ [c]) seen =
   context_parts chunks seen @
     (if chunk_runbook c \<in> seen \<union> chunk_runbook ` set chunks
      then [Body (chunk_runbook c) (ci_content c)]
      else [Header (chunk_runbook c) (md_runbook_title (ci_metadata c)) (md_runbook_url (ci_metadata c)),
            Body (chunk_runbook c) (ci_content c)])"
  by (induction chunks arbitrary: seen) (auto simp: Let_def chunk_runbook_def)

lemma join_nl_append:
  "join_nl (xs @ ys) = join_nl xs @ (if xs = [] \<or> ys = [] then [] else ''\<newline>'') @ join_nl ys"
proof (induction xs rule: join_nl.induct)
  case 1
  then show ?case by simp
next
  case (2 l)
  then show ?case by (cases ys) simp_all
next
  case (3 l k ls)
  then show ?case by simp
qed

lemma context_parts_empty: "(context_parts chunks seen = []) = (chunks = [])"
  by (cases chunks) (simp_all add: Let_def)

lemma rendered_empty: "(concat (map render_part ps) = []) = (ps = [])"
proof (cases ps)
  case Nil
  then show ?thesis by simp
next
  case (Cons p ps')
  then show ?thesis by (cases p) simp_all
qed

lemma format_context_snoc:
  "format_context_for_llm (chunks @ [c]) =
   format_context_for_llm chunks @ (if chunks = [] then [] else ''\<newline>'') @
     (if chunk_runbook c \<in> chunk_runbook ` set chunks
      then ''\<newline>'' @ ci_content c
      else ''\<newline>--- '' @ md_runbook_title (ci_metadata c) @ '' ---\<newline>Source: '' @
           md_runbook_url (ci_metadata c) @ ''\<newline>\<newline>'' @ ci_content c)"
proof -
  let ?new = "if chunk_runbook c \<in> chunk_runbook ` set chunks
      then [Body (chunk_runbook c) (ci_content c)]
      else [Header (chunk_runbook c) (md_runbook_title (ci_metadata c)) (md_runbook_url (ci_metadata c)),
            Body (chunk_runbook c) (ci_content c)]"
  have p: "context_parts (chunks @ [c]) {} = context_parts chunks {} @ ?new"
    using context_parts_snoc[of chunks c "{}"] by simp
  have e: "(concat (map render_part (context_parts chunks {})) = []) = (chunks = [])"
    by (simp only: rendered_empty context_parts_empty)
  have n: "concat (map render_part ?new) \<noteq> []" by simp
  have "format_context_for_llm (chunks @ [c]) =
      join_nl (concat (map render_part (context_parts chunks {})) @ concat (map render_part ?new))"
    unfolding format_context_for_llm_def p by simp
  also have "\<dots> = format_context_for_llm chunks @ (if chunks = [] then [] else ''\<newline>'') @
      join_nl (concat (map render_part ?new))"
    unfolding join_nl_append format_context_for_llm_def using e n by simp
  also have "join_nl (concat (map render_part ?new)) =
     (if chunk_runbook c \<in> chunk_runbook ` set chunks
      then ''\<newline>'' @ ci_content c
      else ''\<newline>--- '' @ md_runbook_title (ci_metadata c) @ '' ---\<newline>Source: '' @
           md_runbook_url (ci_metadata c) @ ''\<newline>\<newline>'' @ ci_content c)"
    by simp
  finally show ?thesis .
qed

text \<open>
  Claim C9, as stated, fails: for the chunks ranked \<open>A\<close>, \<open>B\<close>, \<open>A\<close> the body \<open>c3\<close> of the
  second chunk of runbook \<open>A\<close> (Jenkins) stands beneath the header of runbook \<open>B\<close>
  (Kubernetes), not beneath the header of its own runbook.
\<close>

theorem later_chunk_under_other_header:
  "format_context_for_llm ranked_chunks =
     ''\<newline>--- Jenkins ---\<newline>Source: uA\<newline>\<newline>c1\<newline>\<newline>--- Kubernetes ---\<newline>Source: uB\<newline>\<newline>c2\<newline>\<newline>c3'' \<and>
   chunk_runbook (ranked_chunks ! 2) = ''A'' \<and> ci_content (ranked_chunks ! 2) = ''c3'' \<and>
   md_runbook_title (ci_metadata (ranked_chunks ! 2)) = ''Jenkins''"
  by code_simp

text \<open>
  Claim C9, amended.  The context of \<open>format_context_for_llm\<close> is built chunk by chunk in
  rank order: a chunk whose runbook has not occurred before adds the title and URL header
  of its runbook and then its body, a chunk of a runbook that has occurred adds its body
  only, after whatever precedes it.  So every distinct runbook contributes its header
  exactly once, directly above the body of its best-ranked chunk, and a later chunk of the
  runbook may stand beneath the header of another runbook.  The sources of
  \<open>extract_source_urls\<close> are one for each distinct runbook, each that of a chunk of the
  runbook, sorted by descending relevance.
\<close>

theorem context_in_rank_order_sources_sorted:
  "format_context_for_llm [] = [] \<and>
   format_context_for_llm (chunks @ [c]) =
     format_context_for_llm chunks @ (if chunks = [] then [] else ''\<newline>'') @
       (if chunk_runbook c \<in> chunk_runbook ` set chunks
        then ''\<newline>'' @ ci_content c
        else ''\<newline>--- '' @ md_runbook_title (ci_metadata c) @ '' ---\<newline>Source: '' @
             md_runbook_url (ci_metadata c) @ ''\<newline>\<newline>'' @ ci_content c) \<and>
   filter (Not \<circ> is_header) (context_parts chunks {}) =
     map (\<lambda>c. Body (chunk_runbook c) (ci_content c)) chunks \<and>
   distinct (map part_runbook (filter is_header (context_parts chunks {}))) \<and>
   set (map part_runbook (filter is_header (context_parts chunks {}))) = chunk_runbook ` set chunks \<and>
   (\<forall>p \<in> set (context_parts chunks {}). is_header p \<longrightarrow>
      (\<exists>c \<in> set chunks. p = Header (chunk_runbook c) (md_runbook_title (ci_metadata c))
                                 (md_runbook_url (ci_metadata c)))) \<and>
   sorted_wrt (\<lambda>a b. src_relevance b \<le> src_relevance a) (extract_source_urls chunks) \<and>
   length (extract_source_urls chunks) = card (chunk_runbook ` set chunks) \<and>
   set (extract_source_urls chunks) \<subseteq> chunk_source ` set chunks"
proof -
  have "format_context_for_llm [] = []" by (simp add: format_context_for_llm_def)
  with format_context_snoc[of chunks c] context_parts_structure[of chunks]
  show ?thesis by (intro conjI) blast+
qed

theorem context_in_rank_order_sources_sorted_witness:
  "format_context_for_llm ranked_chunks =
     format_context_for_llm (butlast ranked_chunks) @ ''\<newline>'' @ ''\<newline>'' @ ''c3'' \<and>
   length (extract_source_urls ranked_chunks) = 2"
proof -
  have r: "ranked_chunks = butlast ranked_chunks @ [last ranked_chunks]"
    by (simp add: ranked_chunks_def)
  have seen: "chunk_runbook (last ranked_chunks) \<in> chunk_runbook ` set (butlast ranked_chunks)"
    by (simp add: ranked_chunks_def chunk_runbook_def)
  have ne: "butlast ranked_chunks \<noteq> []" by (simp add: ranked_chunks_def)
  have c3: "ci_content (last ranked_chunks) = ''c3''" by (simp add: ranked_chunks_def)
  have c: "chunk_runbook ` set ranked_chunks = {''A'', ''B''}"
    by (auto simp: ranked_chunks_def chunk_runbook_def)
  from context_in_rank_order_sources_sorted[of "butlast ranked_chunks" "last ranked_chunks"]
  have "format_context_for_llm (butlast ranked_chunks @ [last ranked_chunks]) =
     format_context_for_llm (butlast ranked_chunks) @
       (if butlast ranked_chunks = [] then [] else ''\<newline>'') @
       (if chunk_runbook (last ranked_chunks) \<in> chunk_runbook ` set (butlast ranked_chunks)
        then ''\<newline>'' @ ci_content (last ranked_chunks)
        else ''\<newline>--- '' @ md_runbook_title (ci_metadata (last ranked_chunks)) @
             '' ---\<newline>Source: '' @ md_runbook_url (ci_metadata (last ranked_chunks)) @
             ''\<newline>\<newline>'' @ ci_content (last ranked_chunks))"
    by blast
  then have f: "format_context_for_llm ranked_chunks =
     format_context_for_llm (butlast ranked_chunks) @ ''\<newline>'' @ ''\<newline>'' @ ''c3''"
    unfolding r[symmetric] using seen ne c3 by simp
  from context_in_rank_order_sources_sorted[of ranked_chunks]
  have "length (extract_source_urls ranked_chunks) = card (chunk_runbook ` set ranked_chunks)"
    by blast
  then have "length (extract_source_urls ranked_chunks) = 2" unfolding c by simp
  with f show ?thesis by blast
qed

lemma dropWhile_append_keep:
  "v = [] \<or> \<not> P (hd v) \<Longrightarrow> dropWhile P (cs @ v) = dropWhile P cs @ v"
proof (induction cs)
  case Nil
  then show ?case by (cases v) auto
next
  case (Cons c cs)
  then show ?case by simp
qed

lemma collapse_ws_append_right:
  "v = [] \<or> \<not> is_space (hd v) \<Longrightarrow> collapse_ws (u @ v) = collapse_ws u @ collapse_ws v"
proof (induction u rule: collapse_ws.induct)
  case 1
  then show ?case by simp
next
  case (2 c cs)
  show ?case
  proof (cases "is_space c")
    case True
    have "dropWhile is_space (cs @ v) = dropWhile is_space cs @ v"
      using 2(3) by (rule dropWhile_append_keep)
    with True 2(1)[OF True 2(3)] show ?thesis by simp
  next
    case False
    with 2(2)[OF False 2(3)] show ?thesis by simp
  qed
qed

lemma collapse_ws_append_left:
  "u \<noteq> [] \<Longrightarrow> \<not> is_space (last u) \<Longrightarrow> collapse_ws (u @ v) = collapse_ws u @ collapse_ws v"
proof (induction u rule: collapse_ws.induct)
  case 1
  then show ?case by simp
next
  case (2 c cs)
  show ?case
  proof (cases "is_space c")
    case True
    with 2(3,4) have cs: "cs \<noteq> []" "\<not> is_space (last cs)" by (auto split: if_splits)
    then have ex: "\<exists>x \<in> set cs. \<not> is_space x" using last_in_set by blast
    then obtain x where "x \<in> set cs" "\<not> is_space x" by blast
    then have d: "dropWhile is_space (cs @ v) = dropWhile is_space cs @ v"
      by (rule dropWhile_append1)
    from ex have ne: "dropWhile is_space cs \<noteq> []" by (simp add: dropWhile_eq_Nil_conv)
    have "last (dropWhile is_space cs) = last cs"
      using ne by (metis append_Nil2 last_appendR takeWhile_dropWhile_id)
    with cs have l: "\<not> is_space (last (dropWhile is_space cs))" by simp
    from 2(1)[OF True ne l] d True show ?thesis by simp
  next
    case False
    show ?thesis
    proof (cases "cs = []")
      case True
      with False show ?thesis by simp
    next
      case ne: False
      with 2(4) have "\<not> is_space (last cs)" by simp
      from 2(2)[OF False ne this] False show ?thesis by simp
    qed
  qed
qed

lemma sublist_collapse_ws:
  assumes "sublist w s" and "w = [] \<or> (\<not> is_space (hd w) \<and> \<not> is_space (last w))"
    and "collapse_ws w = w"
  shows "sublist w (collapse_ws s)"
proof (cases "w = []")
  case True
  then show ?thesis by simp
next
  case False
  with assms(2) have h: "\<not> is_space (hd w)" and l: "\<not> is_space (last w)" by simp_all
  from assms(1) obtain a b where s: "s = a @ w @ b" by (auto simp: sublist_def)
  have "collapse_ws (a @ (w @ b)) = collapse_ws a @ collapse_ws (w @ b)"
    using False h by (intro collapse_ws_append_right) simp
  also have "collapse_ws (w @ b) = collapse_ws w @ collapse_ws b"
    using False l by (rule collapse_ws_append_left)
  finally have "collapse_ws s = collapse_ws a @ w @ collapse_ws b"
    using s assms(3) by simp
  then show ?thesis by (auto simp: sublist_def)
qed

lemma str_strip_decomp:
  "\<exists>a b. q = a @ str_strip q @ b"
proof -
  let ?d = "dropWhile is_space q"
  have "q = takeWhile is_space q @ ?d" by simp
  moreover have "?d = rev (rev ?d)" by simp
  moreover have "rev ?d = takeWhile is_space (rev ?d) @ dropWhile is_space (rev ?d)" by simp
  then have "rev (rev ?d) = rev (dropWhile is_space (rev ?d)) @ rev (takeWhile is_space (rev ?d))"
    by (metis rev_append)
  ultimately have "q = takeWhile is_space q @ str_strip q @ rev (takeWhile is_space (rev ?d))"
    unfolding str_strip_def by (metis)
  then show ?thesis by blast
qed

lemma sublist_str_strip: "sublist (str_strip q) q"
  using str_strip_decomp[of q] by (auto simp: sublist_def)

lemma str_strip_ends:
  "str_strip q = [] \<or> (\<not> is_space (hd (str_strip q)) \<and> \<not> is_space (last (str_strip q)))"
proof (cases "str_strip q = []")
  case True
  then show ?thesis by simp
next
  case False
  let ?d = "dropWhile is_space q"
  let ?e = "dropWhile is_space (rev ?d)"
  from False have e: "?e \<noteq> []" by (simp add: str_strip_def)
  have d: "?d \<noteq> []"
  proof
    assume a: "?d = []"
    have "?e = []" unfolding a by simp
    with e show False by blast
  qed
  have "last (str_strip q) = hd ?e" using e by (simp add: str_strip_def last_rev)
  moreover have "\<not> is_space (hd ?e)" using e by (rule hd_dropWhile)
  moreover have "hd (str_strip q) = last ?e" using e by (simp add: str_strip_def hd_rev)
  moreover have "last ?e = last (rev ?d)"
    using e by (metis append_Nil2 last_appendR takeWhile_dropWhile_id)
  moreover have "last (rev ?d) = hd ?d" using d by (simp add: last_rev)
  moreover have "\<not> is_space (hd ?d)" using d by (rule hd_dropWhile)
  ultimately show ?thesis by simp
qed

lemma sublist_map: "sublist xs ys \<Longrightarrow> sublist (map f xs) (map f ys)"
proof -
  assume "sublist xs ys"
  then obtain ps ss where "ys = ps @ xs @ ss" by (auto simp: sublist_def)
  then have "map f ys = map f ps @ map f xs @ map f ss" by simp
  then show ?thesis unfolding sublist_def by blast
qed

lemma literal_query_matches:
  assumes "sublist query (text_content rb)"
    and "collapse_ws (str_strip (str_lower query)) = str_strip (str_lower query)"
  shows "fallback_match (str_strip (str_lower query)) rb"
proof -
  let ?q = "str_strip (str_lower query)"
  have "sublist (str_lower query) (str_lower (text_content rb))"
    unfolding str_lower_def using assms(1) by (rule sublist_map)
  with sublist_str_strip[of "str_lower query"]
  have "sublist ?q (str_lower (text_content rb))" by (rule sublist_order.order.trans)
  from sublist_collapse_ws[OF this str_strip_ends assms(2)]
  show ?thesis by (simp add: fallback_match_def)
qed

lemma py_slice_prefix: "0 \<le> k \<Longrightarrow> py_slice xs 0 k = take (nat k) xs"
  by (simp add: py_slice_def slice_bound_def min_def)

lemma search_chunks_raises:
  "vector_query env query top_k = Inl e \<Longrightarrow>
   fst (search_chunks env sys query top_k) = fallback_text_search sys query top_k"
  by (simp add: search_chunks_def)

text \<open>
  Claim C4, as stated, fails.  The query of the vector index raises and the fallback search
  is reached.  The body of the runbook contains the query \<open>disk  full\<close> (with two spaces)
  literally, and the search returns nothing; the body does not contain the query
  \<open>disk full\<close> (with one space), in any case of the letters, and the search returns the
  runbook.
\<close>

theorem fallback_misses_literal_query:
  "sublist ''disk  full'' (text_content disk_runbook) \<and>
   fst (search_chunks unavailable_store_env
          \<lparr>runbooks_data = [disk_runbook], use_vector_search = True\<rparr> ''disk  full'' 5) = [] \<and>
   \<not> sublist (str_lower ''disk full'') (str_lower (text_content disk_runbook)) \<and>
   fst (search_chunks unavailable_store_env
          \<lparr>runbooks_data = [disk_runbook], use_vector_search = True\<rparr> ''disk full'' 5) =
     [fallback_result disk_runbook]"
  by code_simp

text \<open>
  Claim C4, amended.  When the query of the vector index raises, \<open>search_chunks\<close> returns
  the result of the fallback search: of the runbooks whose lower-cased body, with every run
  of white space collapsed to one space, contains the lower-cased, stripped query, the
  first \<open>top_k\<close> (\<open>top_k \<ge> 0\<close>), each with relevance score 1.  A runbook whose body contains
  the query literally is among the matching ones when the stripped query has no white
  space other than single spaces, and it is returned when there are at most \<open>top_k\<close>
  matching runbooks.
\<close>

theorem search_chunks_fallback:
  assumes "vector_query env query top_k = Inl e" and "0 \<le> top_k"
  shows "fst (search_chunks env sys query top_k) =
           take (nat top_k) (map fallback_result
             (filter (fallback_match (str_strip (str_lower query))) (runbooks_data sys))) \<and>
         length (fst (search_chunks env sys query top_k)) \<le> nat top_k \<and>
         (\<forall>r \<in> set (fst (search_chunks env sys query top_k)). relevance_score r = 1) \<and>
         (\<forall>rb \<in> set (runbooks_data sys).
            sublist query (text_content rb) \<and>
            collapse_ws (str_strip (str_lower query)) = str_strip (str_lower query) \<longrightarrow>
            fallback_match (str_strip (str_lower query)) rb) \<and>
         (\<forall>rb \<in> set (runbooks_data sys).
            fallback_match (str_strip (str_lower query)) rb \<and>
            length (filter (fallback_match (str_strip (str_lower query))) (runbooks_data sys))
              \<le> nat top_k \<longrightarrow>
            fallback_result rb \<in> set (fst (search_chunks env sys query top_k)))"
proof -
  let ?q = "str_strip (str_lower query)"
  let ?matches = "filter (fallback_match ?q) (runbooks_data sys)"
  have r: "fst (search_chunks env sys query top_k) = take (nat top_k) (map fallback_result ?matches)"
    using search_chunks_raises[OF assms(1), of sys] py_slice_prefix[OF assms(2)]
    by (simp add: fallback_text_search_def Let_def)
  have l: "length (fst (search_chunks env sys query top_k)) \<le> nat top_k"
    unfolding r by simp
  have s: "\<forall>r \<in> set (fst (search_chunks env sys query top_k)). relevance_score r = 1"
  proof
    fix x assume "x \<in> set (fst (search_chunks env sys query top_k))"
    then have "x \<in> set (map fallback_result ?matches)"
      unfolding r by (rule in_set_takeD)
    then show "relevance_score x = 1" by (auto simp: fallback_result_def)
  qed
  have m: "\<forall>rb \<in> set (runbooks_data sys).
            sublist query (text_content rb) \<and> collapse_ws ?q = ?q \<longrightarrow> fallback_match ?q rb"
    using literal_query_matches by blast
  have k: "\<forall>rb \<in> set (runbooks_data sys).
            fallback_match ?q rb \<and> length ?matches \<le> nat top_k \<longrightarrow>
            fallback_result rb \<in> set (fst (search_chunks env sys query top_k))"
  proof (intro ballI impI)
    fix rb assume rb: "rb \<in> set (runbooks_data sys)"
      and h: "fallback_match ?q rb \<and> length ?matches \<le> nat top_k"
    then have "take (nat top_k) (map fallback_result ?matches) = map fallback_result ?matches"
      by simp
    moreover have "fallback_result rb \<in> set (map fallback_result ?matches)"
      using rb h by simp
    ultimately show "fallback_result rb \<in> set (fst (search_chunks env sys query top_k))"
      unfolding r by simp
  qed
  from r l s m k show ?thesis by (intro conjI)
qed

theorem search_chunks_fallback_witness:
  "fst (search_chunks unavailable_store_env
          \<lparr>runbooks_data = [disk_runbook], use_vector_search = True\<rparr> ''Build FAILS'' 5)
     = [fallback_result disk_runbook] \<and>
   relevance_score (fallback_result disk_runbook) = 1"
proof -
  let ?sys = "\<lparr>runbooks_data = [disk_runbook], use_vector_search = True\<rparr>"
  have h: "vector_query unavailable_store_env ''Build FAILS'' 5 = Inl ''IndexUnavailable''" "(0::int) \<le> 5"
    by (simp_all add: unavailable_store_env_def)
  have q: "str_strip (str_lower ''Build FAILS'') = ''build fails''"
    by code_simp
  have m: "fallback_match ''build fails'' disk_runbook"
    by (simp add: fallback_match_def disk_runbook_def text_content_def str_lower_def
        lower_char_def is_space_def sublist_code prefix_code)
  from search_chunks_fallback[OF h, of ?sys] have
    "fst (search_chunks unavailable_store_env ?sys ''Build FAILS'' 5) =
       take (nat 5) (map fallback_result
         (filter (fallback_match (str_strip (str_lower ''Build FAILS''))) (runbooks_data ?sys)))"
    by blast
  then have "fst (search_chunks unavailable_store_env ?sys ''Build FAILS'' 5) =
       [fallback_result disk_runbook]"
    unfolding q using m by simp
  moreover have "relevance_score (fallback_result disk_runbook) = 1"
    by (simp add: fallback_result_def)
  ultimately show ?thesis by blast
qed

end
